theory Spec2Isabelle
  imports Main "HOL-Library.Word"
begin

unbundle bit_operations_syntax

section \<open>Byte views (geecache/byteview.go)\<close>

text \<open>
  A Go \<^verbatim>\<open>string\<close> and a Go \<^verbatim>\<open>[]byte\<close> are sequences of bytes; both are modelled as
  \<^typ>\<open>string\<close> (a list of 8-bit characters), so \<^verbatim>\<open>len\<close> is \<^const>\<open>length\<close>.
  \<^verbatim>\<open>ByteView\<close> is the struct with the single field \<^verbatim>\<open>b\<close>.  Values are immutable in
  the model, hence \<^verbatim>\<open>cloneBytes\<close> is the identity on the byte sequence.
\<close>

datatype ByteView = ByteView (view_b: string)

definition Len :: "ByteView \<Rightarrow> int" where
  "Len v = int (length (view_b v))"

definition cloneBytes :: "string \<Rightarrow> string" where
  "cloneBytes bs = bs"

definition ByteSlice :: "ByteView \<Rightarrow> string" where
  "ByteSlice v = cloneBytes (view_b v)"


section \<open>The LRU store (geecache/lru/lru.go)\<close>

text \<open>
  \<^verbatim>\<open>container/list\<close> elements are heap objects, shared by the list and by the map
  \<^verbatim>\<open>cache\<close>.  The model keeps that sharing: an element is an address (a natural number),
  \<open>ll\<close> is the sequence of element addresses from front to back, \<open>elems\<close> is the store
  holding the \<^verbatim>\<open>*entry\<close> of each element, and \<open>cache\<close> maps a key to an element address.
  \<open>next_elem\<close> is the allocator: the address the next \<^verbatim>\<open>PushFront\<close> returns.

  The callback \<^verbatim>\<open>OnEvicted\<close> is represented by a flag (is one configured) and by the
  sequence \<open>evicted\<close> of the calls made to it.

  \<^verbatim>\<open>maxBytes\<close> and \<^verbatim>\<open>nbytes\<close> are \<^verbatim>\<open>int64\<close>; they are modelled as unbounded integers.
  Byte totals of resident entries are taken to stay below \<open>2^63\<close>.
\<close>

record entry =
  e_key :: string
  e_value :: ByteView

record Cache =
  maxBytes :: int
  nbytes :: int
  ll :: "nat list"
  elems :: "nat \<Rightarrow> entry"
  cache :: "string \<rightharpoonup> nat"
  OnEvicted :: bool
  evicted :: "(string \<times> ByteView) list"
  next_elem :: nat

definition lru_New :: "int \<Rightarrow> bool \<Rightarrow> Cache" where
  "lru_New mb onEvicted =
     \<lparr> maxBytes = mb, nbytes = 0, ll = [], elems = (\<lambda>_. \<lparr>e_key = [], e_value = ByteView []\<rparr>),
       cache = Map.empty, OnEvicted = onEvicted, evicted = [], next_elem = 0 \<rparr>"

text \<open>The operations of \<^verbatim>\<open>container/list\<close> that the store uses.\<close>

definition MoveToFront :: "nat list \<Rightarrow> nat \<Rightarrow> nat list" where
  "MoveToFront l e = (if e \<in> set l then e # remove1 e l else l)"

definition PushFront :: "nat list \<Rightarrow> nat \<Rightarrow> nat list" where
  "PushFront l e = e # l"

definition Back :: "nat list \<Rightarrow> nat option" where
  "Back l = (if l = [] then None else Some (last l))"

definition Remove :: "nat list \<Rightarrow> nat \<Rightarrow> nat list" where
  "Remove l e = remove1 e l"

definition lru_RemoveOldest :: "Cache \<Rightarrow> Cache" where
  "lru_RemoveOldest c =
     (case Back (ll c) of
        None \<Rightarrow> c
      | Some ele \<Rightarrow>
          (let kv = elems c ele in
           c\<lparr> ll := Remove (ll c) ele,
              cache := (cache c)(e_key kv := None),
              nbytes := nbytes c - (int (length (e_key kv)) + Len (e_value kv)),
              evicted := (if OnEvicted c then evicted c @ [(e_key kv, e_value kv)]
                          else evicted c) \<rparr>))"

text \<open>
  The eviction loop at the end of \<^verbatim>\<open>Add\<close>:
  \<^verbatim>\<open>for c.maxBytes != 0 && c.maxBytes < c.nbytes { c.RemoveOldest() }\<close>.
  Nothing in the loop bounds the number of iterations, so it is a partial function:
  \<^const>\<open>None\<close> is a loop that never exits.
\<close>

partial_function (option) evict_loop :: "Cache \<Rightarrow> Cache option" where
  "evict_loop c =
     (if maxBytes c \<noteq> 0 \<and> maxBytes c < nbytes c then evict_loop (lru_RemoveOldest c)
      else Some c)"

definition lru_write :: "Cache \<Rightarrow> string \<Rightarrow> ByteView \<Rightarrow> Cache" where
  "lru_write c k v =
     (case cache c k of
        Some ele \<Rightarrow>
          (let kv = elems c ele in
           c\<lparr> ll := MoveToFront (ll c) ele,
              nbytes := nbytes c + (Len v - Len (e_value kv)),
              elems := (elems c)(ele := kv\<lparr>e_value := v\<rparr>) \<rparr>)
      | None \<Rightarrow>
          (let ele = next_elem c in
           c\<lparr> ll := PushFront (ll c) ele,
              elems := (elems c)(ele := \<lparr>e_key = k, e_value = v\<rparr>),
              next_elem := Suc ele,
              cache := (cache c)(k \<mapsto> ele),
              nbytes := nbytes c + (int (length k) + Len v) \<rparr>))"

definition lru_Add :: "Cache \<Rightarrow> string \<Rightarrow> ByteView \<Rightarrow> Cache option" where
  "lru_Add c k v = evict_loop (lru_write c k v)"

text \<open>\<^verbatim>\<open>Get\<close> returns \<open>(value, ok)\<close>: \<open>Some v\<close> stands for \<open>(v, true)\<close>, \<open>None\<close> for \<open>(nil, false)\<close>.\<close>

definition lru_Get :: "Cache \<Rightarrow> string \<Rightarrow> ByteView option \<times> Cache" where
  "lru_Get c k =
     (case cache c k of
        Some ele \<Rightarrow> (Some (e_value (elems c ele)), c\<lparr> ll := MoveToFront (ll c) ele \<rparr>)
      | None \<Rightarrow> (None, c))"

definition lru_Len :: "Cache \<Rightarrow> nat" where
  "lru_Len c = length (ll c)"

text \<open>The resident entries, most recently used first, and the bytes one entry accounts for.\<close>

definition entries :: "Cache \<Rightarrow> entry list" where
  "entries c = map (elems c) (ll c)"

definition entry_size :: "entry \<Rightarrow> int" where
  "entry_size e = int (length (e_key e)) + Len (e_value e)"

text \<open>Sequences of operations on one store; a sequence stops where an \<^verbatim>\<open>Add\<close> never returns.\<close>

datatype lru_op = OpAdd string ByteView | OpGet string | OpRemoveOldest

fun lru_step :: "Cache \<Rightarrow> lru_op \<Rightarrow> Cache option" where
  "lru_step c (OpAdd k v) = lru_Add c k v"
| "lru_step c (OpGet k) = Some (snd (lru_Get c k))"
| "lru_step c OpRemoveOldest = Some (lru_RemoveOldest c)"

fun lru_run :: "Cache \<Rightarrow> lru_op list \<Rightarrow> Cache option" where
  "lru_run c [] = Some c"
| "lru_run c (x # xs) = (case lru_step c x of None \<Rightarrow> None | Some c' \<Rightarrow> lru_run c' xs)"

text \<open>
  The representation invariant of the store: the list has no element twice, the map and
  the list reference the same elements under the keys stored in them, and the byte counter
  is the sum of the resident entries' sizes.
\<close>

definition lru_inv :: "Cache \<Rightarrow> bool" where
  "lru_inv c \<longleftrightarrow>
     distinct (ll c) \<and>
     (\<forall>a \<in> set (ll c). cache c (e_key (elems c a)) = Some a \<and> a < next_elem c) \<and>
     (\<forall>k a. cache c k = Some a \<longrightarrow> a \<in> set (ll c) \<and> e_key (elems c a) = k) \<and>
     nbytes c = sum_list (map entry_size (entries c))"

text \<open>The guard of the eviction loop.\<close>

definition over_capacity :: "Cache \<Rightarrow> bool" where
  "over_capacity c \<longleftrightarrow> maxBytes c \<noteq> 0 \<and> maxBytes c < nbytes c"

datatype panic = NilPointerDereference | IndexOutOfRange | PanicMessage string

type_synonym Hash = "string \<Rightarrow> 32 word"

definition crc32_bit :: "32 word \<Rightarrow> 32 word" where
  "crc32_bit c = (if c AND 1 = 1 then drop_bit 1 c XOR 0xEDB88320 else drop_bit 1 c)"

definition crc32_update :: "char \<Rightarrow> 32 word \<Rightarrow> 32 word" where
  "crc32_update b c = (crc32_bit ^^ 8) (c XOR of_char b)"

definition ChecksumIEEE :: Hash where
  "ChecksumIEEE data = fold crc32_update data 0xFFFFFFFF XOR 0xFFFFFFFF"

function Itoa_nat :: "nat \<Rightarrow> string" where
  "Itoa_nat n = (if n < 10 then [''0123456789'' ! n]
                 else Itoa_nat (n div 10) @ [''0123456789'' ! (n mod 10)])"
  by pat_completeness auto
termination
  by (relation "measure id") auto

declare Itoa_nat.simps [simp del]

definition Itoa :: "int \<Rightarrow> string" where
  "Itoa i = (if i < 0 then CHR ''-'' # Itoa_nat (nat (- i)) else Itoa_nat (nat i))"

definition string_of_rune :: "int \<Rightarrow> string" where
  "string_of_rune r =
     (if r < 0 \<or> 0x10FFFF < r \<or> (0xD800 \<le> r \<and> r \<le> 0xDFFF)
        then [CHR 0xEF, CHR 0xBF, CHR 0xBD]
      else if r < 0x80 then [char_of r]
      else if r < 0x800 then [char_of (0xC0 + r div 64), char_of (0x80 + r mod 64)]
      else if r < 0x10000
        then [char_of (0xE0 + r div 4096), char_of (0x80 + r div 64 mod 64),
              char_of (0x80 + r mod 64)]
      else [char_of (0xF0 + r div 262144), char_of (0x80 + r div 4096 mod 64),
            char_of (0x80 + r div 64 mod 64), char_of (0x80 + r mod 64)])"

record Map =
  hash :: Hash
  replicas :: int
  keys :: "int list"
  hashMap :: "int \<rightharpoonup> string"

definition consistenthash_New :: "int \<Rightarrow> Hash option \<Rightarrow> Map" where
  "consistenthash_New r fn =
     \<lparr> hash = (case fn of None \<Rightarrow> ChecksumIEEE | Some f \<Rightarrow> f), replicas = r,
       keys = [], hashMap = Map.empty \<rparr>"

definition add_point :: "(int \<Rightarrow> string) \<Rightarrow> string \<Rightarrow> nat \<Rightarrow> Map \<Rightarrow> Map" where
  "add_point label key i m =
     (let h = uint (hash m (label (int i) @ key))
      in m\<lparr> keys := keys m @ [h], hashMap := (hashMap m)(h \<mapsto> key) \<rparr>)"

definition add_key :: "(int \<Rightarrow> string) \<Rightarrow> string \<Rightarrow> Map \<Rightarrow> Map" where
  "add_key label key m = fold (add_point label key) [0 ..< nat (replicas m)] m"

definition add_all :: "(int \<Rightarrow> string) \<Rightarrow> Map \<Rightarrow> string list \<Rightarrow> Map" where
  "add_all label m ks = (let m' = fold (add_key label) ks m in m'\<lparr> keys := sort (keys m') \<rparr>)"

definition Map_Add :: "Map \<Rightarrow> string list \<Rightarrow> Map" where
  "Map_Add = add_all Itoa"

definition Map_Add_rune :: "Map \<Rightarrow> string list \<Rightarrow> Map" where
  "Map_Add_rune = add_all string_of_rune"

definition index :: "'a list \<Rightarrow> nat \<Rightarrow> panic + 'a" where
  "index xs i = (if i < length xs then Inr (xs ! i) else Inl IndexOutOfRange)"

function Search_loop :: "(nat \<Rightarrow> panic + bool) \<Rightarrow> nat \<Rightarrow> nat \<Rightarrow> panic + nat" where
  "Search_loop f i j =
     (if i < j
      then (let h = (i + j) div 2
            in case f h of
                 Inl e \<Rightarrow> Inl e
               | Inr b \<Rightarrow> if \<not> b then Search_loop f (h + 1) j else Search_loop f i h)
      else Inr i)"
  by pat_completeness auto
termination
  by (relation "measure (\<lambda>(f, i, j). j - i)") auto

declare Search_loop.simps [simp del]

definition Search :: "nat \<Rightarrow> (nat \<Rightarrow> panic + bool) \<Rightarrow> panic + nat" where
  "Search n f = Search_loop f 0 n"

definition Map_Get :: "Map \<Rightarrow> string \<Rightarrow> panic + string" where
  "Map_Get m key =
     (if length (keys m) = 0 then Inr []
      else (let h = uint (hash m key)
            in case Search (length (keys m))
                      (\<lambda>i. case index (keys m) i of Inl e \<Rightarrow> Inl e | Inr p \<Rightarrow> Inr (p \<ge> h)) of
                 Inl e \<Rightarrow> Inl e
               | Inr idx \<Rightarrow>
                   (case index (keys m) (idx mod length (keys m)) of
                      Inl e \<Rightarrow> Inl e
                    | Inr p \<Rightarrow> Inr (case hashMap m p of None \<Rightarrow> [] | Some peer \<Rightarrow> peer))))"

definition successor_point :: "int list \<Rightarrow> int \<Rightarrow> int" where
  "successor_point ks h =
     (let above = filter (\<lambda>q. h \<le> q) ks
      in if above = [] then Min (set ks) else Min (set above))"

definition point :: "(int \<Rightarrow> string) \<Rightarrow> Map \<Rightarrow> string \<Rightarrow> nat \<Rightarrow> int" where
  "point label m key i = uint (hash m (label (int i) @ key))"

definition new_points :: "(int \<Rightarrow> string) \<Rightarrow> Map \<Rightarrow> string list \<Rightarrow> int list" where
  "new_points label m ks =
     concat (map (\<lambda>k. map (point label m k) [0 ..< nat (replicas m)]) ks)"

definition ring_ok :: "Map \<Rightarrow> string set \<Rightarrow> bool" where
  "ring_ok m P \<longleftrightarrow> sorted (keys m) \<and> set (keys m) = dom (hashMap m) \<and> ran (hashMap m) \<subseteq> P"

definition defaultBasePath :: string where
  "defaultBasePath = ''/_geecache/''"

definition defaultReplicas :: int where
  "defaultReplicas = 50"

record httpGetter =
  baseURL :: string

record HTTPPool =
  self :: string
  basePath :: string
  peers :: "Map option"
  httpGetters :: "string \<rightharpoonup> httpGetter"

definition NewHTTPPool :: "string \<Rightarrow> HTTPPool" where
  "NewHTTPPool s = \<lparr> self = s, basePath = defaultBasePath, peers = None, httpGetters = Map.empty \<rparr>"

definition HTTPPool_Set :: "HTTPPool \<Rightarrow> string list \<Rightarrow> HTTPPool" where
  "HTTPPool_Set p ps =
     p\<lparr> peers := Some (Map_Add (consistenthash_New defaultReplicas None) ps),
        httpGetters := fold (\<lambda>peer g. g(peer \<mapsto> \<lparr> baseURL = peer @ basePath p \<rparr>)) ps Map.empty \<rparr>"

definition PickPeer :: "HTTPPool \<Rightarrow> string \<Rightarrow> panic + (httpGetter option \<times> bool)" where
  "PickPeer p key =
     (case HTTPPool.peers p of
        None \<Rightarrow> Inl NilPointerDereference
      | Some m \<Rightarrow>
          (case Map_Get m key of
             Inl e \<Rightarrow> Inl e
           | Inr peer \<Rightarrow>
               if peer \<noteq> [] \<and> peer \<noteq> self p then Inr (httpGetters p peer, True)
               else Inr (None, False)))"

section \<open>The cache shell (geecache/cache.go)\<close>

text \<open>
  The mutex of the shell serialises the two operations; each is modelled as one step.
  \<^verbatim>\<open>lru\<close> is a pointer that is nil until the first \<^verbatim>\<open>add\<close>.  \<^verbatim>\<open>add\<close> returns \<^const>\<open>None\<close>
  when the store's \<^verbatim>\<open>Add\<close> never returns.
\<close>

record cache =
  lru :: "Cache option"
  cacheBytes :: int

definition cache_add :: "cache \<Rightarrow> string \<Rightarrow> ByteView \<Rightarrow> cache option" where
  "cache_add c k v =
     (let l = (case lru c of None \<Rightarrow> lru_New (cacheBytes c) False | Some l \<Rightarrow> l)
      in case lru_Add l k v of None \<Rightarrow> None | Some l' \<Rightarrow> Some (c\<lparr> lru := Some l' \<rparr>))"

definition cache_get :: "cache \<Rightarrow> string \<Rightarrow> ByteView option \<times> cache" where
  "cache_get c k =
     (case lru c of
        None \<Rightarrow> (None, c)
      | Some l \<Rightarrow> (case lru_Get l k of (r, l') \<Rightarrow> (r, c\<lparr> lru := Some l' \<rparr>)))"


section \<open>Single flight, one caller at a time (singleflight/singleflight.go)\<close>

text \<open>
  A Go \<^verbatim>\<open>error\<close> is a value carrying a message; a pair \<open>(v, err)\<close> of results is a pair
  whose second component is \<^const>\<open>None\<close> for \<^verbatim>\<open>nil\<close>.  A call of the program returns,
  panics or never returns.

  \<^verbatim>\<open>Do\<close> as one goroutine runs it, with no other goroutine taking a step meanwhile.  If
  the map holds a call for the key, the caller waits for its \<^verbatim>\<open>WaitGroup\<close>: it returns the
  call's results if the counter is already 0 and waits forever otherwise.  If not, the
  caller records a call, runs \<open>fn\<close> (which may change the state \<open>s\<close> it closes over),
  and deletes the record.  The interleaving of several callers is the subject of the step
  relation further down.
\<close>

datatype error = Error string

datatype 'a outcome = Returns 'a | Panics panic | Diverges

record 'r call =
  wg :: nat
  val :: 'r
  err :: "error option"

type_synonym 'r Flight = "string \<rightharpoonup> 'r call"

definition Do ::
  "'r Flight \<Rightarrow> string \<Rightarrow> ('s \<Rightarrow> (('r \<times> error option) \<times> 's) outcome) \<Rightarrow> 's
     \<Rightarrow> ((('r \<times> error option) \<times> 's) \<times> 'r Flight) outcome" where
  "Do m key fn s =
     (case m key of
        Some c \<Rightarrow> if wg c = 0 then Returns (((val c, err c), s), m) else Diverges
      | None \<Rightarrow>
          (case fn s of
             Returns (r, s') \<Rightarrow> Returns ((r, s'), m(key := None))
           | Panics p \<Rightarrow> Panics p
           | Diverges \<Rightarrow> Diverges))"


section \<open>Groups (geecache/geecache.go, geecache/peers.go)\<close>

text \<open>
  The interfaces are functions.  A \<^verbatim>\<open>Getter\<close> maps a key to \<open>(bytes, err)\<close>.  A
  \<^verbatim>\<open>PeerGetter\<close> maps the group's name and a key to the \<^verbatim>\<open>Value\<close> it leaves in the
  response and its \<^verbatim>\<open>error\<close>.  A \<^verbatim>\<open>PeerPicker\<close> maps a key to \<open>(peer, ok)\<close>, where the
  peer may be nil, or panics (as \<^verbatim>\<open>HTTPPool.PickPeer\<close> can).
\<close>

type_synonym Getter = "string \<Rightarrow> string \<times> error option"

type_synonym PeerGetter = "string \<Rightarrow> string \<Rightarrow> string \<times> error option"

type_synonym PeerPicker = "string \<Rightarrow> panic + (PeerGetter option \<times> bool)"

record Group =
  name :: string
  getter :: Getter
  mainCache :: cache
  peers :: "PeerPicker option"
  loader :: "ByteView Flight"

definition populateCache :: "Group \<Rightarrow> string \<Rightarrow> ByteView \<Rightarrow> Group outcome" where
  "populateCache g key v =
     (case cache_add (mainCache g) key v of
        None \<Rightarrow> Diverges
      | Some c \<Rightarrow> Returns (g\<lparr> mainCache := c \<rparr>))"

definition getLocally :: "Group \<Rightarrow> string \<Rightarrow> ((ByteView \<times> error option) \<times> Group) outcome" where
  "getLocally g key =
     (case getter g key of
        (bytes, Some e) \<Rightarrow> Returns ((ByteView [], Some e), g)
      | (bytes, None) \<Rightarrow>
          (let v = ByteView (cloneBytes bytes)
           in case populateCache g key v of
                Returns g' \<Rightarrow> Returns ((v, None), g')
              | Panics p \<Rightarrow> Panics p
              | Diverges \<Rightarrow> Diverges))"

definition getFromPeer ::
  "Group \<Rightarrow> PeerGetter option \<Rightarrow> string \<Rightarrow> (ByteView \<times> error option) outcome" where
  "getFromPeer g peer key =
     (case peer of
        None \<Rightarrow> Panics NilPointerDereference
      | Some get \<Rightarrow>
          (case get (name g) key of
             (bytes, Some e) \<Rightarrow> Returns (ByteView [], Some e)
           | (bytes, None) \<Rightarrow> Returns (ByteView bytes, None)))"

text \<open>
  The function literal that \<^verbatim>\<open>load\<close> passes to \<^verbatim>\<open>Do\<close>.  It closes over the group and
  over \<^verbatim>\<open>load\<close>'s named result \<^verbatim>\<open>value\<close>, which it assigns from \<^verbatim>\<open>getFromPeer\<close>; its
  state is the pair of both.  (Its assignment to the named result \<^verbatim>\<open>err\<close> is overwritten
  when \<^verbatim>\<open>Do\<close> returns.)
\<close>

definition load_fn ::
  "string \<Rightarrow> ByteView \<times> Group \<Rightarrow> ((ByteView \<times> error option) \<times> (ByteView \<times> Group)) outcome" where
  "load_fn key s =
     (case s of (value0, g) \<Rightarrow>
        (let locally = (\<lambda>value.
               case getLocally g key of
                 Returns (r, g') \<Rightarrow> Returns (r, (value, g'))
               | Panics p \<Rightarrow> Panics p
               | Diverges \<Rightarrow> Diverges)
         in case Group.peers g of
              None \<Rightarrow> locally value0
            | Some picker \<Rightarrow>
                (case picker key of
                   Inl p \<Rightarrow> Panics p
                 | Inr (peer, ok) \<Rightarrow>
                     if ok
                     then (case getFromPeer g peer key of
                             Returns (value, None) \<Rightarrow> Returns ((value, None), (value, g))
                           | Returns (value, Some e) \<Rightarrow> locally value
                           | Panics p \<Rightarrow> Panics p
                           | Diverges \<Rightarrow> Diverges)
                     else locally value0)))"

definition load :: "Group \<Rightarrow> string \<Rightarrow> ((ByteView \<times> error option) \<times> Group) outcome" where
  "load g key =
     (case Do (loader g) key (load_fn key) (ByteView [], g) of
        Returns (((viewi, e), (value, g')), m) \<Rightarrow>
          (case e of
             None \<Rightarrow> Returns ((viewi, None), g'\<lparr> loader := m \<rparr>)
           | Some e' \<Rightarrow> Returns ((value, Some e'), g'\<lparr> loader := m \<rparr>))
      | Panics p \<Rightarrow> Panics p
      | Diverges \<Rightarrow> Diverges)"

definition Group_Get :: "Group \<Rightarrow> string \<Rightarrow> ((ByteView \<times> error option) \<times> Group) outcome" where
  "Group_Get g key =
     (if key = [] then Returns ((ByteView [], Some (Error ''key is required'')), g)
      else (case cache_get (mainCache g) key of
              (Some v, c) \<Rightarrow> Returns ((v, None), g\<lparr> mainCache := c \<rparr>)
            | (None, c) \<Rightarrow> load (g\<lparr> mainCache := c \<rparr>) key))"

definition RegisterPeers :: "Group \<Rightarrow> PeerPicker \<Rightarrow> Group outcome" where
  "RegisterPeers g picker =
     (case Group.peers g of
        Some p \<Rightarrow> Panics (PanicMessage ''RegisterPeerPicker called more than once'')
      | None \<Rightarrow> Returns (g\<lparr> peers := Some picker \<rparr>))"


section \<open>The registry of groups (geecache/geecache.go)\<close>

text \<open>
  \<^verbatim>\<open>groups\<close> maps a name to a \<^verbatim>\<open>*Group\<close>.  Groups are heap objects: \<open>group_store\<close> holds the
  group at each address and \<open>next_group\<close> is the address the next \<^verbatim>\<open>NewGroup\<close> allocates.
  The registry's lock makes \<^verbatim>\<open>NewGroup\<close> and \<^verbatim>\<open>GetGroup\<close> atomic; each is one step.
  A nil \<^verbatim>\<open>Getter\<close> is \<^const>\<open>None\<close>; \<^verbatim>\<open>GetGroup\<close> returns \<^const>\<open>None\<close> for nil.
\<close>

record Registry =
  groups :: "string \<rightharpoonup> nat"
  group_store :: "nat \<rightharpoonup> Group"
  next_group :: nat

definition empty_registry :: Registry where
  "empty_registry = \<lparr> groups = Map.empty, group_store = Map.empty, next_group = 0 \<rparr>"

definition NewGroup ::
  "Registry \<Rightarrow> string \<Rightarrow> int \<Rightarrow> Getter option \<Rightarrow> (nat \<times> Registry) outcome" where
  "NewGroup r nm cb gt =
     (case gt of
        None \<Rightarrow> Panics (PanicMessage ''nil Getter'')
      | Some f \<Rightarrow>
          (let g = next_group r
           in Returns (g,
                r\<lparr> group_store := (group_store r)(g \<mapsto>
                       \<lparr> name = nm, getter = f, mainCache = \<lparr> lru = None, cacheBytes = cb \<rparr>,
                         peers = None, loader = Map.empty \<rparr>),
                   groups := (groups r)(nm \<mapsto> g),
                   next_group := Suc g \<rparr>)))"

definition GetGroup :: "Registry \<Rightarrow> string \<Rightarrow> nat option" where
  "GetGroup r nm = groups r nm"

text \<open>
  Calls on the registry in sequence: the state after them and the groups created, each
  with its name, in the order of creation.  A panic ends the sequence.
\<close>

datatype registry_op = OpNewGroup string int "Getter option" | OpGetGroup string

fun registry_run ::
  "Registry \<Rightarrow> registry_op list \<Rightarrow> ((string \<times> nat) list \<times> Registry) outcome" where
  "registry_run r [] = Returns ([], r)"
| "registry_run r (OpGetGroup nm # ops) = registry_run r ops"
| "registry_run r (OpNewGroup nm cb gt # ops) =
     (case NewGroup r nm cb gt of
        Returns (g, r') \<Rightarrow>
          (case registry_run r' ops of
             Returns (created, r'') \<Rightarrow> Returns ((nm, g) # created, r'')
           | Panics p \<Rightarrow> Panics p
           | Diverges \<Rightarrow> Diverges)
      | Panics p \<Rightarrow> Panics p
      | Diverges \<Rightarrow> Diverges)"

text \<open>The group created last under a name, if any.\<close>

definition last_created :: "(string \<times> nat) list \<Rightarrow> string \<Rightarrow> nat option" where
  "last_created created nm = map_of (rev created) nm"


text \<open>
  The states of a shell that the program reaches: no store yet, or a store that
  \<^verbatim>\<open>lru.New(cacheBytes, nil)\<close> created and calls of its operations changed.
\<close>

definition cache_ok :: "cache \<Rightarrow> bool" where
  "cache_ok c \<longleftrightarrow>
     (case lru c of
        None \<Rightarrow> True
      | Some l \<Rightarrow> (\<exists>ops. lru_run (lru_New (cacheBytes c) False) ops = Some l))"

text \<open>The registries in which every registered group has been allocated.\<close>

definition registry_ok :: "Registry \<Rightarrow> bool" where
  "registry_ok r \<longleftrightarrow> (\<forall>n a. groups r n = Some a \<longrightarrow> a < next_group r)"


section \<open>The example group of the entry point (main.go)\<close>

text \<open>
  \<^verbatim>\<open>createGroup\<close> registers the group \<open>scores\<close> with capacity \<^verbatim>\<open>2<<10\<close> over the map
  \<^verbatim>\<open>db\<close>; the loader returns \<^verbatim>\<open>fmt.Errorf("%s not exist", key)\<close> for a key that \<^verbatim>\<open>db\<close>
  lacks.
\<close>

definition db :: "string \<rightharpoonup> string" where
  "db = map_of [(''Tom'', ''630''), (''Jack'', ''589''), (''Sam'', ''567'')]"

definition db_getter :: Getter where
  "db_getter key =
     (case db key of Some v \<Rightarrow> (v, None) | None \<Rightarrow> ([], Some (Error (key @ '' not exist''))))"

definition createGroup :: "Registry \<Rightarrow> (nat \<times> Registry) outcome" where
  "createGroup r = NewGroup r ''scores'' 2048 (Some db_getter)"

section \<open>Single flight under interleaving (singleflight/singleflight.go)\<close>

text \<open>
  Goroutines that call \<^verbatim>\<open>Do\<close> on one \<^verbatim>\<open>singleflight.Group\<close>, interleaved in any order.
  A goroutine is a natural number; \<open>pcs\<close> holds for each goroutine the place it has
  reached in \<^verbatim>\<open>Do\<close>:

  \<^item> \<open>Entering key\<close>: it has called \<^verbatim>\<open>Do(key, fn)\<close> and has not yet taken the lock;
  \<^item> \<open>Waiting c\<close>: it found the call \<open>c\<close> under the key, released the lock, and is at
    \<^verbatim>\<open>c.wg.Wait()\<close>;
  \<^item> \<open>Calling key c\<close>: it created the call \<open>c\<close> (\<^verbatim>\<open>c.wg.Add(1)\<close>, \<^verbatim>\<open>g.m[key] = c\<close>),
    released the lock, and is about to run \<open>fn\<close>;
  \<^item> \<open>Written key c\<close>: \<open>fn\<close> has returned and \<^verbatim>\<open>c.val, c.err\<close> are assigned;
  \<^item> \<open>Released key c\<close>: \<^verbatim>\<open>c.wg.Done()\<close> is done;
  \<^item> \<open>Returned c led r\<close>: \<^verbatim>\<open>Do\<close> has returned \<open>r\<close>.  The call \<open>c\<close> it returned from and
    whether it created that call are kept for the statement of the properties.

  The steps are the critical sections of the mutex (each is atomic), the assignment of the
  results, \<^verbatim>\<open>Done\<close>, and the return from \<^verbatim>\<open>Wait\<close>, which is enabled when the counter is 0.
  \<^verbatim>\<open>c.val\<close> and \<^verbatim>\<open>c.err\<close> are written by the creator before \<^verbatim>\<open>Done\<close> and read by the
  others after \<^verbatim>\<open>Wait\<close>, so the \<^verbatim>\<open>WaitGroup\<close> orders the accesses and the interleaving of
  these steps covers the executions.  Calls are heap objects: \<open>fcalls\<close> is the store of
  \<^verbatim>\<open>call\<close> records and \<open>fnext\<close> the address of the next \<^verbatim>\<open>new(call)\<close>.

  \<open>res t\<close> is what the \<open>fn\<close> of goroutine \<open>t\<close> returns when it is invoked, \<open>nil\<close> is the
  zero value of \<^verbatim>\<open>c.val\<close>, and \<open>fn_log\<close> records every invocation of an \<open>fn\<close>: the goroutine
  and the call it was invoked for.  A step is \<^const>\<open>None\<close> for a goroutine that cannot move
  (it waits, or it has returned).
\<close>

datatype 'r pc =
    Entering string
  | Waiting nat
  | Calling string nat
  | Written string nat
  | Released string nat
  | Returned nat bool "'r \<times> error option"

record 'r flight =
  fm :: "string \<rightharpoonup> nat"
  fcalls :: "nat \<Rightarrow> 'r call"
  fnext :: nat
  pcs :: "nat \<Rightarrow> 'r pc"
  fn_log :: "(nat \<times> nat) list"

definition flight_init :: "'r \<Rightarrow> (nat \<Rightarrow> string) \<Rightarrow> 'r flight" where
  "flight_init nil key_of =
     \<lparr> fm = Map.empty, fcalls = (\<lambda>_. \<lparr> wg = 0, val = nil, err = None \<rparr>), fnext = 0,
       pcs = (\<lambda>t. Entering (key_of t)), fn_log = [] \<rparr>"

definition flight_step ::
  "'r \<Rightarrow> (nat \<Rightarrow> 'r \<times> error option) \<Rightarrow> nat \<Rightarrow> 'r flight \<Rightarrow> 'r flight option" where
  "flight_step nil res t s =
     (case pcs s t of
        Entering key \<Rightarrow>
          (case fm s key of
             Some c \<Rightarrow> Some (s\<lparr> pcs := (pcs s)(t := Waiting c) \<rparr>)
           | None \<Rightarrow>
               (let c = fnext s
                in Some (s\<lparr> fcalls := (fcalls s)(c := \<lparr> wg = 1, val = nil, err = None \<rparr>),
                           fm := (fm s)(key \<mapsto> c),
                           fnext := Suc c,
                           pcs := (pcs s)(t := Calling key c) \<rparr>)))
      | Waiting c \<Rightarrow>
          if wg (fcalls s c) = 0
          then Some (s\<lparr> pcs := (pcs s)(t := Returned c False (val (fcalls s c), err (fcalls s c))) \<rparr>)
          else None
      | Calling key c \<Rightarrow>
          Some (s\<lparr> fcalls := (fcalls s)(c := (fcalls s c)\<lparr> val := fst (res t), err := snd (res t) \<rparr>),
                  fn_log := fn_log s @ [(t, c)],
                  pcs := (pcs s)(t := Written key c) \<rparr>)
      | Written key c \<Rightarrow>
          Some (s\<lparr> fcalls := (fcalls s)(c := (fcalls s c)\<lparr> wg := wg (fcalls s c) - 1 \<rparr>),
                  pcs := (pcs s)(t := Released key c) \<rparr>)
      | Released key c \<Rightarrow>
          Some (s\<lparr> fm := (fm s)(key := None),
                  pcs := (pcs s)(t := Returned c True (val (fcalls s c), err (fcalls s c))) \<rparr>)
      | Returned c led r \<Rightarrow> None)"

text \<open>A schedule is the sequence of the goroutines that move, one step each.\<close>

fun flight_run ::
  "'r \<Rightarrow> (nat \<Rightarrow> 'r \<times> error option) \<Rightarrow> 'r flight \<Rightarrow> nat list \<Rightarrow> 'r flight option" where
  "flight_run nil res s [] = Some s"
| "flight_run nil res s (t # ts) =
     (case flight_step nil res t s of None \<Rightarrow> None | Some s' \<Rightarrow> flight_run nil res s' ts)"

text \<open>
  The invariant of the interleaving.  \<open>leads p c\<close>: a goroutine at \<open>p\<close> created the call
  \<open>c\<close>.
\<close>

definition leads :: "'r pc \<Rightarrow> nat \<Rightarrow> bool" where
  "leads p c \<longleftrightarrow>
     (case p of
        Calling k c' \<Rightarrow> c' = c
      | Written k c' \<Rightarrow> c' = c
      | Released k c' \<Rightarrow> c' = c
      | Returned c' led r \<Rightarrow> led \<and> c' = c
      | _ \<Rightarrow> False)"

definition results :: "'r call \<Rightarrow> 'r \<times> error option" where
  "results c = (val c, err c)"

definition pc_ok :: "(nat \<Rightarrow> 'r \<times> error option) \<Rightarrow> 'r flight \<Rightarrow> nat \<Rightarrow> bool" where
  "pc_ok res s t \<longleftrightarrow>
     (case pcs s t of
        Entering k \<Rightarrow> t \<notin> fst ` set (fn_log s)
      | Waiting c \<Rightarrow> c < fnext s \<and> t \<notin> fst ` set (fn_log s)
      | Calling k c \<Rightarrow>
          c < fnext s \<and> fm s k = Some c \<and> wg (fcalls s c) = 1 \<and> c \<notin> snd ` set (fn_log s) \<and>
          t \<notin> fst ` set (fn_log s)
      | Written k c \<Rightarrow>
          c < fnext s \<and> fm s k = Some c \<and> wg (fcalls s c) = 1 \<and> (t, c) \<in> set (fn_log s)
      | Released k c \<Rightarrow>
          c < fnext s \<and> fm s k = Some c \<and> wg (fcalls s c) = 0 \<and> (t, c) \<in> set (fn_log s)
      | Returned c led r \<Rightarrow>
          c < fnext s \<and> wg (fcalls s c) = 0 \<and> r = results (fcalls s c) \<and>
          (if led then (t, c) \<in> set (fn_log s) \<and> (\<forall>k. fm s k \<noteq> Some c)
           else t \<notin> fst ` set (fn_log s)))"

definition flight_inv :: "(nat \<Rightarrow> 'r \<times> error option) \<Rightarrow> 'r flight \<Rightarrow> bool" where
  "flight_inv res s \<longleftrightarrow>
     (\<forall>t. pc_ok res s t) \<and>
     (\<forall>t t' c. leads (pcs s t) c \<and> leads (pcs s t') c \<longrightarrow> t = t') \<and>
     (\<forall>k c. fm s k = Some c \<longrightarrow>
        c < fnext s \<and> (\<exists>l. pcs s l = Calling k c \<or> pcs s l = Written k c \<or> pcs s l = Released k c)) \<and>
     (\<forall>l c. (l, c) \<in> set (fn_log s) \<longrightarrow>
        c < fnext s \<and> results (fcalls s c) = res l \<and> leads (pcs s l) c) \<and>
     (\<forall>c < fnext s. wg (fcalls s c) = 0 \<longrightarrow> c \<in> snd ` set (fn_log s)) \<and>
     distinct (map snd (fn_log s)) \<and> distinct (map fst (fn_log s))"

section \<open>Properties of the LRU store\<close>

lemma remove1_last: "distinct l \<Longrightarrow> l \<noteq> [] \<Longrightarrow> remove1 (last l) l = butlast l"
  by (induction l) auto

lemma sum_remove1:
  "a \<in> set l \<Longrightarrow> sum_list (map f (remove1 a l)) = sum_list (map f l) - (f a :: int)"
  by (induction l) auto

lemma map_upd_other: "a \<notin> set l \<Longrightarrow> map (f(a := x)) l = map f l"
  by (induction l) auto

lemma insert_remove1: "a \<in> set l \<Longrightarrow> insert a (set (remove1 a l)) = set l"
  by (induction l) auto

lemma set_MoveToFront: "set (MoveToFront l a) = set l"
  by (simp add: MoveToFront_def insert_remove1)

lemma distinct_MoveToFront: "distinct l \<Longrightarrow> distinct (MoveToFront l a)"
  by (simp add: MoveToFront_def)

lemma sum_MoveToFront:
  "sum_list (map f (MoveToFront l a)) = (sum_list (map f l) :: int)"
  by (simp add: MoveToFront_def sum_remove1)

lemma lru_invI:
  assumes "distinct (ll c)"
    and "\<And>a. a \<in> set (ll c) \<Longrightarrow> cache c (e_key (elems c a)) = Some a"
    and "\<And>a. a \<in> set (ll c) \<Longrightarrow> a < next_elem c"
    and "\<And>k a. cache c k = Some a \<Longrightarrow> a \<in> set (ll c)"
    and "\<And>k a. cache c k = Some a \<Longrightarrow> e_key (elems c a) = k"
    and "nbytes c = sum_list (map (\<lambda>a. entry_size (elems c a)) (ll c))"
  shows "lru_inv c"
  unfolding lru_inv_def entries_def using assms by (simp add: comp_def)

lemma lru_inv_distinct: "lru_inv c \<Longrightarrow> distinct (ll c)"
  by (simp add: lru_inv_def)

lemma lru_inv_cache_of: "lru_inv c \<Longrightarrow> a \<in> set (ll c) \<Longrightarrow> cache c (e_key (elems c a)) = Some a"
  by (simp add: lru_inv_def)

lemma lru_inv_bound: "lru_inv c \<Longrightarrow> a \<in> set (ll c) \<Longrightarrow> a < next_elem c"
  by (simp add: lru_inv_def)

lemma lru_inv_mem: "lru_inv c \<Longrightarrow> cache c k = Some a \<Longrightarrow> a \<in> set (ll c)"
  by (simp add: lru_inv_def)

lemma lru_inv_key: "lru_inv c \<Longrightarrow> cache c k = Some a \<Longrightarrow> e_key (elems c a) = k"
  by (simp add: lru_inv_def)

lemma lru_inv_nbytes: "lru_inv c \<Longrightarrow> nbytes c = sum_list (map (\<lambda>a. entry_size (elems c a)) (ll c))"
  by (simp add: lru_inv_def entries_def comp_def)

lemma lru_inv_New: "lru_inv (lru_New mb cb)"
  by (simp add: lru_inv_def lru_New_def entries_def)

lemma lru_RemoveOldest_Nil: "ll c = [] \<Longrightarrow> lru_RemoveOldest c = c"
  by (simp add: lru_RemoveOldest_def Back_def)

lemma lru_RemoveOldest_Cons:
  assumes "ll c \<noteq> []"
  shows "ll (lru_RemoveOldest c) = remove1 (last (ll c)) (ll c)"
    and "cache (lru_RemoveOldest c) = (cache c)(e_key (elems c (last (ll c))) := None)"
    and "nbytes (lru_RemoveOldest c) = nbytes c - entry_size (elems c (last (ll c)))"
    and "evicted (lru_RemoveOldest c) =
           (if OnEvicted c
            then evicted c @ [(e_key (elems c (last (ll c))), e_value (elems c (last (ll c))))]
            else evicted c)"
  using assms
  by (simp_all add: lru_RemoveOldest_def Back_def Remove_def Let_def entry_size_def)

lemma lru_RemoveOldest_frame:
  "elems (lru_RemoveOldest c) = elems c"
  "next_elem (lru_RemoveOldest c) = next_elem c"
  "maxBytes (lru_RemoveOldest c) = maxBytes c"
  "OnEvicted (lru_RemoveOldest c) = OnEvicted c"
  by (simp_all add: lru_RemoveOldest_def Let_def split: option.splits)

lemma lru_inv_RemoveOldest:
  assumes inv: "lru_inv c"
  shows "lru_inv (lru_RemoveOldest c)"
proof (cases "ll c = []")
  case True
  then show ?thesis using inv by (simp add: lru_RemoveOldest_Nil)
next
  case False
  define a where "a = last (ll c)"
  note s = lru_RemoveOldest_Cons [OF False, folded a_def] lru_RemoveOldest_frame
  have a: "a \<in> set (ll c)" using False by (simp add: a_def)
  have d: "distinct (ll c)" using inv by (rule lru_inv_distinct)
  have ca: "cache c (e_key (elems c a)) = Some a" using inv a by (rule lru_inv_cache_of)
  have mem: "\<And>x. x \<in> set (remove1 a (ll c)) \<longleftrightarrow> x \<noteq> a \<and> x \<in> set (ll c)"
    using d by auto
  show ?thesis
  proof (rule lru_invI)
    show "distinct (ll (lru_RemoveOldest c))" using d by (simp add: s)
  next
    fix x assume "x \<in> set (ll (lru_RemoveOldest c))"
    then have xa: "x \<noteq> a" and xl: "x \<in> set (ll c)" by (simp_all add: s mem)
    have cx: "cache c (e_key (elems c x)) = Some x" using inv xl by (rule lru_inv_cache_of)
    have "e_key (elems c x) \<noteq> e_key (elems c a)" using cx ca xa by auto
    then show "cache (lru_RemoveOldest c) (e_key (elems (lru_RemoveOldest c) x)) = Some x"
      using cx by (simp add: s)
    show "x < next_elem (lru_RemoveOldest c)"
      using lru_inv_bound [OF inv xl] by (simp add: s)
  next
    fix k x assume "cache (lru_RemoveOldest c) k = Some x"
    then have kne: "k \<noteq> e_key (elems c a)" and ck: "cache c k = Some x"
      by (auto simp: s split: if_splits)
    have xl: "x \<in> set (ll c)" using inv ck by (rule lru_inv_mem)
    have kx: "e_key (elems c x) = k" using inv ck by (rule lru_inv_key)
    have "x \<noteq> a" using kx kne by auto
    then show "x \<in> set (ll (lru_RemoveOldest c))" using xl by (simp add: s mem)
    show "e_key (elems (lru_RemoveOldest c) x) = k" using kx by (simp add: s)
  next
    have "sum_list (map (\<lambda>x. entry_size (elems c x)) (remove1 a (ll c)))
          = sum_list (map (\<lambda>x. entry_size (elems c x)) (ll c)) - entry_size (elems c a)"
      using a by (rule sum_remove1)
    then show "nbytes (lru_RemoveOldest c) =
        sum_list (map (\<lambda>a. entry_size (elems (lru_RemoveOldest c) a)) (ll (lru_RemoveOldest c)))"
      using lru_inv_nbytes [OF inv] by (simp add: s)
  qed
qed

lemma lru_Get_miss: "cache c k = None \<Longrightarrow> lru_Get c k = (None, c)"
  by (simp add: lru_Get_def)

lemma lru_Get_hit:
  "cache c k = Some a \<Longrightarrow>
   lru_Get c k = (Some (e_value (elems c a)), c\<lparr> ll := MoveToFront (ll c) a \<rparr>)"
  by (simp add: lru_Get_def)

lemma lru_inv_Get:
  assumes inv: "lru_inv c"
  shows "lru_inv (snd (lru_Get c k))"
proof (cases "cache c k")
  case None
  then show ?thesis using inv by (simp add: lru_Get_miss)
next
  case (Some a)
  show ?thesis unfolding lru_Get_hit [OF Some] snd_conv
  proof (rule lru_invI)
    show "distinct (ll (c\<lparr>ll := MoveToFront (ll c) a\<rparr>))"
      using lru_inv_distinct [OF inv] by (simp add: distinct_MoveToFront)
  next
    fix x assume "x \<in> set (ll (c\<lparr>ll := MoveToFront (ll c) a\<rparr>))"
    then have xl: "x \<in> set (ll c)" by (simp add: set_MoveToFront)
    show "cache (c\<lparr>ll := MoveToFront (ll c) a\<rparr>) (e_key (elems (c\<lparr>ll := MoveToFront (ll c) a\<rparr>) x)) = Some x"
      using lru_inv_cache_of [OF inv xl] by simp
    show "x < next_elem (c\<lparr>ll := MoveToFront (ll c) a\<rparr>)"
      using lru_inv_bound [OF inv xl] by simp
  next
    fix k' x assume "cache (c\<lparr>ll := MoveToFront (ll c) a\<rparr>) k' = Some x"
    then have ck: "cache c k' = Some x" by simp
    show "x \<in> set (ll (c\<lparr>ll := MoveToFront (ll c) a\<rparr>))"
      using lru_inv_mem [OF inv ck] by (simp add: set_MoveToFront)
    show "e_key (elems (c\<lparr>ll := MoveToFront (ll c) a\<rparr>) x) = k'"
      using lru_inv_key [OF inv ck] by simp
  next
    show "nbytes (c\<lparr>ll := MoveToFront (ll c) a\<rparr>) =
      sum_list (map (\<lambda>x. entry_size (elems (c\<lparr>ll := MoveToFront (ll c) a\<rparr>) x)) (ll (c\<lparr>ll := MoveToFront (ll c) a\<rparr>)))"
      using lru_inv_nbytes [OF inv] by (simp add: sum_MoveToFront)
  qed
qed

lemma lru_write_hit:
  assumes "cache c k = Some a"
  shows "ll (lru_write c k v) = MoveToFront (ll c) a"
    and "elems (lru_write c k v) = (elems c)(a := (elems c a)\<lparr>e_value := v\<rparr>)"
    and "cache (lru_write c k v) = cache c"
    and "nbytes (lru_write c k v) = nbytes c + (Len v - Len (e_value (elems c a)))"
    and "next_elem (lru_write c k v) = next_elem c"
  using assms by (simp_all add: lru_write_def Let_def)

lemma lru_write_miss:
  assumes "cache c k = None"
  shows "ll (lru_write c k v) = next_elem c # ll c"
    and "elems (lru_write c k v) = (elems c)(next_elem c := \<lparr>e_key = k, e_value = v\<rparr>)"
    and "cache (lru_write c k v) = (cache c)(k \<mapsto> next_elem c)"
    and "nbytes (lru_write c k v) = nbytes c + (int (length k) + Len v)"
    and "next_elem (lru_write c k v) = Suc (next_elem c)"
  using assms by (simp_all add: lru_write_def Let_def PushFront_def)

lemma lru_write_frame:
  "maxBytes (lru_write c k v) = maxBytes c"
  "OnEvicted (lru_write c k v) = OnEvicted c"
  "evicted (lru_write c k v) = evicted c"
  by (simp_all add: lru_write_def Let_def split: option.splits)

lemma lru_inv_write:
  assumes inv: "lru_inv c"
  shows "lru_inv (lru_write c k v)"
proof (cases "cache c k")
  case None
  define n where "n = next_elem c"
  note s = lru_write_miss [OF None, folded n_def]
  have fresh: "n \<notin> set (ll c)" using lru_inv_bound [OF inv, of n] by (auto simp: n_def)
  show ?thesis
  proof (rule lru_invI)
    show "distinct (ll (lru_write c k v))"
      using lru_inv_distinct [OF inv] fresh by (simp add: s)
  next
    fix x assume "x \<in> set (ll (lru_write c k v))"
    then consider "x = n" | "x \<noteq> n" "x \<in> set (ll c)" by (auto simp: s)
    then show "cache (lru_write c k v) (e_key (elems (lru_write c k v) x)) = Some x"
    proof cases
      case 1
      then show ?thesis by (simp add: s)
    next
      case 2
      have cx: "cache c (e_key (elems c x)) = Some x" using inv 2(2) by (rule lru_inv_cache_of)
      then have "e_key (elems c x) \<noteq> k" using None by auto
      then show ?thesis using cx 2(1) by (simp add: s)
    qed
    show "x < next_elem (lru_write c k v)"
      using \<open>x \<in> set (ll (lru_write c k v))\<close> lru_inv_bound [OF inv, of x]
      by (auto simp: s n_def)
  next
    fix k' x assume h: "cache (lru_write c k v) k' = Some x"
    then consider "k' = k" "x = n" | "k' \<noteq> k" "cache c k' = Some x"
      by (auto simp: s split: if_splits)
    then show "x \<in> set (ll (lru_write c k v))"
    proof cases
      case 1
      then show ?thesis by (simp add: s)
    next
      case 2
      then show ?thesis using lru_inv_mem [OF inv 2(2)] by (simp add: s)
    qed
    from h consider "k' = k" "x = n" | "k' \<noteq> k" "cache c k' = Some x"
      by (auto simp: s split: if_splits)
    then show "e_key (elems (lru_write c k v) x) = k'"
    proof cases
      case 1
      then show ?thesis by (simp add: s)
    next
      case 2
      have "x \<in> set (ll c)" using inv 2(2) by (rule lru_inv_mem)
      then have "x \<noteq> n" using fresh by auto
      then show ?thesis using lru_inv_key [OF inv 2(2)] by (simp add: s)
    qed
  next
    have h: "entry_size (((elems c)(n := \<lparr>e_key = k, e_value = v\<rparr>)) n) = int (length k) + Len v"
      by (simp add: entry_size_def)
    have m: "map (\<lambda>a. entry_size (((elems c)(n := \<lparr>e_key = k, e_value = v\<rparr>)) a)) (ll c)
           = map (\<lambda>a. entry_size (elems c a)) (ll c)"
      using fresh by (intro map_cong) auto
    show "nbytes (lru_write c k v) =
        sum_list (map (\<lambda>a. entry_size (elems (lru_write c k v) a)) (ll (lru_write c k v)))"
      using lru_inv_nbytes [OF inv] h by (simp add: s m del: fun_upd_apply)
  qed
next
  case (Some a)
  define el where "el = (elems c)(a := (elems c a)\<lparr>e_value := v\<rparr>)"
  note s = lru_write_hit [OF Some]
  have a: "a \<in> set (ll c)" using inv Some by (rule lru_inv_mem)
  have ka: "e_key (elems c a) = k" using inv Some by (rule lru_inv_key)
  have d: "distinct (ll c)" using inv by (rule lru_inv_distinct)
  have keq: "\<And>x. e_key (((elems c)(a := (elems c a)\<lparr>e_value := v\<rparr>)) x) = e_key (elems c x)"
    by simp
  show ?thesis
  proof (rule lru_invI)
    show "distinct (ll (lru_write c k v))" using d by (simp add: s distinct_MoveToFront)
  next
    fix x assume "x \<in> set (ll (lru_write c k v))"
    then have xl: "x \<in> set (ll c)" by (simp add: s set_MoveToFront)
    show "cache (lru_write c k v) (e_key (elems (lru_write c k v) x)) = Some x"
      using lru_inv_cache_of [OF inv xl] by (simp add: s keq del: fun_upd_apply)
    show "x < next_elem (lru_write c k v)" using lru_inv_bound [OF inv xl] by (simp add: s)
  next
    fix k' x assume "cache (lru_write c k v) k' = Some x"
    then have ck: "cache c k' = Some x" by (simp add: s)
    show "x \<in> set (ll (lru_write c k v))"
      using lru_inv_mem [OF inv ck] by (simp add: s set_MoveToFront)
    show "e_key (elems (lru_write c k v) x) = k'"
      using lru_inv_key [OF inv ck] by (simp add: s keq del: fun_upd_apply)
  next
    have m: "map (\<lambda>x. entry_size (el x)) (remove1 a (ll c))
           = map (\<lambda>x. entry_size (elems c x)) (remove1 a (ll c))"
      using d by (intro map_cong) (auto simp: el_def)
    have r: "sum_list (map (\<lambda>x. entry_size (elems c x)) (remove1 a (ll c)))
          = sum_list (map (\<lambda>x. entry_size (elems c x)) (ll c)) - entry_size (elems c a)"
      using a by (rule sum_remove1)
    have e: "entry_size (el a) = entry_size (elems c a) + (Len v - Len (e_value (elems c a)))"
      by (simp add: el_def entry_size_def)
    show "nbytes (lru_write c k v) =
        sum_list (map (\<lambda>a. entry_size (elems (lru_write c k v) a)) (ll (lru_write c k v)))"
      using lru_inv_nbytes [OF inv] a
      by (simp add: s MoveToFront_def m [unfolded el_def] r e [unfolded el_def] del: fun_upd_apply)
  qed
qed

lemma evict_loop_stop: "\<not> over_capacity c \<Longrightarrow> evict_loop c = Some c"
  by (subst evict_loop.simps) (auto simp: over_capacity_def)

lemma evict_loop_step: "over_capacity c \<Longrightarrow> evict_loop c = evict_loop (lru_RemoveOldest c)"
  by (subst evict_loop.simps) (simp add: over_capacity_def)

lemma evict_loop_exit:
  "evict_loop c = Some c' \<Longrightarrow> \<not> over_capacity c' \<and> maxBytes c' = maxBytes c"
proof (induction rule: evict_loop.raw_induct [rotated 1, consumes 1])
  case (1 f c c')
  show ?case
  proof (cases "maxBytes c \<noteq> 0 \<and> maxBytes c < nbytes c")
    case True
    then have "f (lru_RemoveOldest c) = Some c'" using 1(2) by simp
    then have "\<not> over_capacity c' \<and> maxBytes c' = maxBytes (lru_RemoveOldest c)" by (rule 1(1))
    then show ?thesis by (simp add: lru_RemoveOldest_frame)
  next
    case False
    then have "c' = c" using 1(2) by auto
    then show ?thesis using False by (simp add: over_capacity_def)
  qed
qed

lemma entry_size_nonneg: "0 \<le> entry_size e"
  by (simp add: entry_size_def Len_def)

lemma sum_entry_size_nonneg: "0 \<le> sum_list (map (\<lambda>a. entry_size (f a)) l)"
  by (rule sum_list_nonneg) (auto simp: entry_size_nonneg)

lemma lru_inv_nbytes_nonneg: "lru_inv c \<Longrightarrow> 0 \<le> nbytes c"
  by (simp add: lru_inv_nbytes sum_entry_size_nonneg)

lemma over_capacity_nonempty:
  assumes "lru_inv c" "0 \<le> maxBytes c" "over_capacity c"
  shows "ll c \<noteq> []"
proof
  assume "ll c = []"
  then have "nbytes c = 0" using lru_inv_nbytes [OF assms(1)] by simp
  then show False using assms(2,3) by (simp add: over_capacity_def)
qed

lemma lru_RemoveOldest_ll: "lru_inv c \<Longrightarrow> ll (lru_RemoveOldest c) = butlast (ll c)"
  by (cases "ll c = []")
     (simp_all add: lru_RemoveOldest_Nil lru_RemoveOldest_Cons remove1_last lru_inv_distinct)

lemma lru_inv_funpow: "lru_inv c \<Longrightarrow> lru_inv ((lru_RemoveOldest ^^ j) c)"
  by (induction j) (simp_all add: lru_inv_RemoveOldest)

lemma funpow_frame:
  "maxBytes ((lru_RemoveOldest ^^ j) c) = maxBytes c"
  "elems ((lru_RemoveOldest ^^ j) c) = elems c"
  "next_elem ((lru_RemoveOldest ^^ j) c) = next_elem c"
  "OnEvicted ((lru_RemoveOldest ^^ j) c) = OnEvicted c"
  by (induction j) (simp_all add: lru_RemoveOldest_frame)

lemma butlast_take': "butlast (take m l) = take (m - 1) l" if "m \<le> length l"
  using that by (simp add: butlast_take)

lemma funpow_ll:
  "lru_inv c \<Longrightarrow> ll ((lru_RemoveOldest ^^ j) c) = take (length (ll c) - j) (ll c)"
proof (induction j)
  case 0
  then show ?case by simp
next
  case (Suc j)
  have "ll ((lru_RemoveOldest ^^ Suc j) c) = butlast (ll ((lru_RemoveOldest ^^ j) c))"
    using lru_inv_funpow [OF Suc.prems] by (simp add: lru_RemoveOldest_ll)
  also have "\<dots> = butlast (take (length (ll c) - j) (ll c))" using Suc by simp
  also have "\<dots> = take (length (ll c) - j - 1) (ll c)" by (rule butlast_take') simp
  finally show ?case by simp
qed

lemma evict_loop_total:
  assumes "lru_inv c" "0 \<le> maxBytes c"
  shows "\<exists>j \<le> length (ll c). evict_loop c = Some ((lru_RemoveOldest ^^ j) c)"
  using assms
proof (induction "length (ll c)" arbitrary: c)
  case 0
  then have "\<not> over_capacity c" using over_capacity_nonempty [of c] by auto
  then have "evict_loop c = Some ((lru_RemoveOldest ^^ 0) c)" by (simp add: evict_loop_stop)
  then show ?case by blast
next
  case (Suc n)
  show ?case
  proof (cases "over_capacity c")
    case False
    then have "evict_loop c = Some ((lru_RemoveOldest ^^ 0) c)" by (simp add: evict_loop_stop)
    then show ?thesis by blast
  next
    case True
    let ?r = "lru_RemoveOldest c"
    have len: "n = length (ll ?r)" using Suc.hyps(2) Suc.prems(1) by (simp add: lru_RemoveOldest_ll)
    have "\<exists>j \<le> length (ll ?r). evict_loop ?r = Some ((lru_RemoveOldest ^^ j) ?r)"
      using Suc.hyps(1) [OF len] Suc.prems by (simp add: lru_inv_RemoveOldest lru_RemoveOldest_frame)
    then obtain j where j: "j \<le> length (ll ?r)" "evict_loop ?r = Some ((lru_RemoveOldest ^^ j) ?r)"
      by blast
    have "evict_loop c = Some ((lru_RemoveOldest ^^ Suc j) c)"
      using True j(2) by (simp add: evict_loop_step funpow_swap1)
    moreover have "Suc j \<le> length (ll c)" using j(1) len Suc.hyps(2) by simp
    ultimately show ?thesis by blast
  qed
qed

lemma evict_loop_diverges:
  assumes "lru_inv c" "maxBytes c < 0"
  shows "evict_loop c = None"
proof (rule ccontr)
  assume "evict_loop c \<noteq> None"
  then obtain c' where "evict_loop c = Some c'" by auto
  then have "\<not> (lru_inv c \<and> maxBytes c < 0)"
  proof (induction rule: evict_loop.raw_induct [rotated 1, consumes 1])
    case (1 f c c')
    show ?case
    proof
      assume h: "lru_inv c \<and> maxBytes c < 0"
      then have "maxBytes c \<noteq> 0 \<and> maxBytes c < nbytes c"
        using lru_inv_nbytes_nonneg [of c] by simp
      then have "f (lru_RemoveOldest c) = Some c'" using 1(2) by simp
      then have "\<not> (lru_inv (lru_RemoveOldest c) \<and> maxBytes (lru_RemoveOldest c) < 0)"
        by (rule 1(1))
      then show False using h by (simp add: lru_inv_RemoveOldest lru_RemoveOldest_frame)
    qed
  qed
  then show False using assms by simp
qed

lemma evict_loop_inv: "evict_loop c = Some c' \<Longrightarrow> lru_inv c \<Longrightarrow> lru_inv c'"
proof (induction rule: evict_loop.raw_induct [rotated 1, consumes 1])
  case (1 f c c')
  show ?case
  proof (cases "maxBytes c \<noteq> 0 \<and> maxBytes c < nbytes c")
    case True
    then have "f (lru_RemoveOldest c) = Some c'" using 1(2) by simp
    then show ?thesis using 1(1) [of "lru_RemoveOldest c" c'] 1(3)
      by (simp add: lru_inv_RemoveOldest)
  next
    case False
    then have "c' = c" using 1(2) by auto
    then show ?thesis using 1(3) by simp
  qed
qed

lemma lru_Get_frame:
  "maxBytes (snd (lru_Get c k)) = maxBytes c"
  "nbytes (snd (lru_Get c k)) = nbytes c"
  "elems (snd (lru_Get c k)) = elems c"
  "cache (snd (lru_Get c k)) = cache c"
  "evicted (snd (lru_Get c k)) = evicted c"
  by (simp_all add: lru_Get_def split: option.splits)

lemma lru_step_inv: "lru_step c x = Some c' \<Longrightarrow> lru_inv c \<Longrightarrow> lru_inv c'"
  by (cases x)
     (auto simp: lru_Add_def lru_inv_Get lru_inv_RemoveOldest intro: evict_loop_inv lru_inv_write)

lemma lru_step_maxBytes: "lru_step c x = Some c' \<Longrightarrow> maxBytes c' = maxBytes c"
  by (cases x)
     (auto simp: lru_Add_def lru_Get_frame lru_RemoveOldest_frame lru_write_frame
           dest: evict_loop_exit)

lemma lru_run_inv: "lru_run c ops = Some c' \<Longrightarrow> lru_inv c \<Longrightarrow> lru_inv c'"
proof (induction ops arbitrary: c)
  case Nil
  then show ?case by simp
next
  case (Cons x xs)
  then show ?case by (auto split: option.splits dest: lru_step_inv)
qed

lemma lru_run_maxBytes: "lru_run c ops = Some c' \<Longrightarrow> maxBytes c' = maxBytes c"
proof (induction ops arbitrary: c)
  case Nil
  then show ?case by simp
next
  case (Cons x xs)
  then show ?case by (auto split: option.splits dest: lru_step_maxBytes)
qed

lemma lru_reachable_inv: "lru_run (lru_New mb cb) ops = Some c \<Longrightarrow> lru_inv c"
  by (erule lru_run_inv) (rule lru_inv_New)

lemma lru_reachable_maxBytes: "lru_run (lru_New mb cb) ops = Some c \<Longrightarrow> maxBytes c = mb"
  by (drule lru_run_maxBytes) (simp add: lru_New_def)

lemma lru_Add_total:
  "lru_inv c \<Longrightarrow> 0 \<le> maxBytes c \<Longrightarrow> \<exists>c'. lru_Add c k v = Some c'"
  using evict_loop_total [of "lru_write c k v"]
  by (auto simp: lru_Add_def lru_inv_write lru_write_frame)

lemma lru_step_total:
  "lru_inv c \<Longrightarrow> 0 \<le> maxBytes c \<Longrightarrow> \<exists>c'. lru_step c x = Some c'"
  by (cases x) (simp_all add: lru_Add_total)

lemma lru_run_total_from:
  "lru_inv c \<Longrightarrow> 0 \<le> maxBytes c \<Longrightarrow> \<exists>c'. lru_run c ops = Some c'"
proof (induction ops arbitrary: c)
  case Nil
  then show ?case by simp
next
  case (Cons x xs)
  obtain c1 where c1: "lru_step c x = Some c1" using lru_step_total [OF Cons.prems] by blast
  have "lru_inv c1" "0 \<le> maxBytes c1"
    using c1 Cons.prems by (auto dest: lru_step_inv lru_step_maxBytes)
  then obtain c' where "lru_run c1 xs = Some c'" using Cons.IH by blast
  then show ?case using c1 by simp
qed

lemma lru_run_total: "0 \<le> mb \<Longrightarrow> \<exists>c. lru_run (lru_New mb cb) ops = Some c"
  by (rule lru_run_total_from) (simp_all add: lru_inv_New, simp add: lru_New_def)

lemma lru_Add_diverges: "lru_inv c \<Longrightarrow> maxBytes c < 0 \<Longrightarrow> lru_Add c k v = None"
  unfolding lru_Add_def by (rule evict_loop_diverges) (simp_all add: lru_inv_write lru_write_frame)

text \<open>
  Claim C4.  In every state that a sequence of \<^verbatim>\<open>Add\<close>, \<^verbatim>\<open>Get\<close> and \<^verbatim>\<open>RemoveOldest\<close> calls
  reaches from a fresh store, the byte counter \<open>nbytes\<close> is the sum of
  \<open>len(key) + len(value)\<close> over the resident entries, and it still is after one more
  operation.  \<^verbatim>\<open>Add\<close> of a key that is present changes the counter by the new value's length
  minus the old one's, and \<^verbatim>\<open>RemoveOldest\<close> on a store that is not empty subtracts the size
  of the entry at the back of the list.  (For a capacity \<open>mb \<ge> 0\<close> every sequence runs to its
  end, \<open>lru_run_total\<close>; for a negative capacity \<^verbatim>\<open>Add\<close> never returns,
  \<open>lru_Add_diverges\<close>.)
\<close>

theorem lru_counter_is_sum:
  "lru_run (lru_New mb cb) ops = Some c \<Longrightarrow>
     nbytes c = sum_list (map entry_size (entries c)) \<and>
     (\<forall>x c'. lru_step c x = Some c' \<longrightarrow> nbytes c' = sum_list (map entry_size (entries c'))) \<and>
     (\<forall>k v a. cache c k = Some a \<longrightarrow>
        nbytes (lru_write c k v) = nbytes c + (Len v - Len (e_value (elems c a)))) \<and>
     (ll c \<noteq> [] \<longrightarrow>
        nbytes (lru_RemoveOldest c) = nbytes c - entry_size (elems c (last (ll c))))"
proof -
  assume r: "lru_run (lru_New mb cb) ops = Some c"
  have inv: "lru_inv c" using r by (rule lru_reachable_inv)
  have 1: "nbytes c = sum_list (map entry_size (entries c))" using inv by (simp add: lru_inv_def)
  have 2: "\<forall>x c'. lru_step c x = Some c' \<longrightarrow> nbytes c' = sum_list (map entry_size (entries c'))"
  proof (intro allI impI)
    fix x c' assume "lru_step c x = Some c'"
    then have "lru_inv c'" using inv by (rule lru_step_inv)
    then show "nbytes c' = sum_list (map entry_size (entries c'))" by (simp add: lru_inv_def)
  qed
  have 3: "\<forall>k v a. cache c k = Some a \<longrightarrow>
        nbytes (lru_write c k v) = nbytes c + (Len v - Len (e_value (elems c a)))"
    by (simp add: lru_write_hit)
  have 4: "ll c \<noteq> [] \<longrightarrow>
        nbytes (lru_RemoveOldest c) = nbytes c - entry_size (elems c (last (ll c)))"
    by (simp add: lru_RemoveOldest_Cons)
  show ?thesis using 1 2 3 4 by blast
qed

lemmas lru_eval =
  lru_Add_def lru_write_def lru_Get_def lru_RemoveOldest_def lru_New_def lru_Len_def
  MoveToFront_def PushFront_def Back_def Remove_def Let_def Len_def
  evict_loop_stop evict_loop_step over_capacity_def entries_def entry_size_def

lemma lru_Get_fst: "fst (lru_Get c k) = map_option (\<lambda>a. e_value (elems c a)) (cache c k)"
  by (simp add: lru_Get_def split: option.splits)

lemma peek_write_same: "fst (lru_Get (lru_write c k v) k) = Some v"
  by (cases "cache c k") (simp_all add: lru_Get_fst lru_write_miss lru_write_hit)

lemma peek_write_other:
  assumes inv: "lru_inv c" and ne: "k' \<noteq> k"
  shows "fst (lru_Get (lru_write c k v) k') = fst (lru_Get c k')"
proof (cases "cache c k'")
  case None
  then show ?thesis using ne
    by (cases "cache c k") (simp_all add: lru_Get_fst lru_write_miss lru_write_hit)
next
  case (Some a')
  have a': "a' \<in> set (ll c)" using inv Some by (rule lru_inv_mem)
  have ka': "e_key (elems c a') = k'" using inv Some by (rule lru_inv_key)
  show ?thesis
  proof (cases "cache c k")
    case None
    have "a' \<noteq> next_elem c" using lru_inv_bound [OF inv a'] by simp
    then show ?thesis using ne Some by (simp add: lru_Get_fst lru_write_miss [OF None])
  next
    case (Some a)
    have "e_key (elems c a) = k" using inv Some by (rule lru_inv_key)
    then have "a' \<noteq> a" using ka' ne by auto
    then show ?thesis using \<open>cache c k' = Some a'\<close>
      by (simp add: lru_Get_fst lru_write_hit [OF Some])
  qed
qed

lemma peek_Get: "fst (lru_Get (snd (lru_Get c k)) k') = fst (lru_Get c k')"
  by (simp add: lru_Get_fst lru_Get_frame)

text \<open>
  Claim C2, as amended.  In every reachable state of a store of capacity \<open>mb\<close>: when
  \<^verbatim>\<open>Add\<close> returns, the capacity is 0 or the byte counter is at most the capacity; \<^verbatim>\<open>Add\<close>
  returns exactly when the capacity is not negative; and when the capacity is 0, \<^verbatim>\<open>Add\<close>
  admits the entry (a lookup of the key then finds the value) and neither \<^verbatim>\<open>Add\<close> nor
  \<^verbatim>\<open>Get\<close> evicts: every other key is found with the value it had, and the eviction
  callback is not called.  The claim as written says that no operation evicts at
  capacity 0; an explicit \<^verbatim>\<open>RemoveOldest\<close> does (see the counterexample below).
\<close>

theorem lru_add_within_capacity:
  "lru_run (lru_New mb cb) ops = Some c \<Longrightarrow>
     (\<forall>c'. lru_Add c k v = Some c' \<longrightarrow> maxBytes c' = 0 \<or> nbytes c' \<le> maxBytes c') \<and>
     ((\<exists>c'. lru_Add c k v = Some c') \<longleftrightarrow> 0 \<le> mb) \<and>
     (mb = 0 \<longrightarrow>
        (\<exists>c'. lru_Add c k v = Some c' \<and> fst (lru_Get c' k) = Some v \<and>
              (\<forall>k'. k' \<noteq> k \<longrightarrow> fst (lru_Get c' k') = fst (lru_Get c k')) \<and>
              evicted c' = evicted c) \<and>
        (\<forall>k'. fst (lru_Get (snd (lru_Get c k)) k') = fst (lru_Get c k')) \<and>
        evicted (snd (lru_Get c k)) = evicted c)"
proof -
  assume r: "lru_run (lru_New mb cb) ops = Some c"
  have inv: "lru_inv c" using r by (rule lru_reachable_inv)
  have mb: "maxBytes c = mb" using r by (rule lru_reachable_maxBytes)
  have 1: "\<forall>c'. lru_Add c k v = Some c' \<longrightarrow> maxBytes c' = 0 \<or> nbytes c' \<le> maxBytes c'"
    by (auto simp: lru_Add_def over_capacity_def dest!: evict_loop_exit)
  have 2: "(\<exists>c'. lru_Add c k v = Some c') \<longleftrightarrow> 0 \<le> mb"
  proof (cases "0 \<le> mb")
    case True
    then show ?thesis using lru_Add_total [OF inv, of k v] mb by simp
  next
    case False
    then have "lru_Add c k v = None" using lru_Add_diverges [OF inv, of k v] mb by simp
    then show ?thesis using False by simp
  qed
  have 3: "mb = 0 \<longrightarrow>
        (\<exists>c'. lru_Add c k v = Some c' \<and> fst (lru_Get c' k) = Some v \<and>
              (\<forall>k'. k' \<noteq> k \<longrightarrow> fst (lru_Get c' k') = fst (lru_Get c k')) \<and>
              evicted c' = evicted c)"
  proof
    assume "mb = 0"
    then have "\<not> over_capacity (lru_write c k v)"
      using mb by (simp add: over_capacity_def lru_write_frame)
    then have "lru_Add c k v = Some (lru_write c k v)"
      by (simp add: lru_Add_def evict_loop_stop)
    then show "\<exists>c'. lru_Add c k v = Some c' \<and> fst (lru_Get c' k) = Some v \<and>
              (\<forall>k'. k' \<noteq> k \<longrightarrow> fst (lru_Get c' k') = fst (lru_Get c k')) \<and>
              evicted c' = evicted c"
      using peek_write_other [OF inv] by (simp add: peek_write_same lru_write_frame)
  qed
  show ?thesis using 1 2 3 by (simp add: peek_Get lru_Get_frame)
qed

lemma write_front:
  assumes inv: "lru_inv c"
  shows "\<exists>a rest. ll (lru_write c k v) = a # rest \<and>
           entry_size (elems (lru_write c k v) a) = int (length k) + Len v"
proof (cases "cache c k")
  case None
  then show ?thesis by (simp add: lru_write_miss entry_size_def)
next
  case (Some a)
  have "a \<in> set (ll c)" using inv Some by (rule lru_inv_mem)
  moreover have "e_key (elems c a) = k" using inv Some by (rule lru_inv_key)
  ultimately show ?thesis by (simp add: lru_write_hit [OF Some] MoveToFront_def entry_size_def)
qed

lemma lru_inv_empty_cache: "lru_inv c \<Longrightarrow> ll c = [] \<Longrightarrow> cache c = Map.empty"
proof (rule ext)
  fix k assume inv: "lru_inv c" and e: "ll c = []"
  show "cache c k = None"
  proof (cases "cache c k")
    case (Some a)
    then show ?thesis using lru_inv_mem [OF inv Some] e by simp
  qed simp
qed

text \<open>
  Claim C3, as amended.  In every reachable state of a store of capacity \<open>mb > 0\<close>,
  \<^verbatim>\<open>Add\<close> of an entry whose size \<open>len(key) + len(value)\<close> exceeds the capacity returns
  with the store empty: the eviction loop removes every other entry and then the new entry
  itself, the byte counter is 0 and no key is found.  The claim as written says that the
  oversized entry stays resident.
\<close>

theorem lru_oversized_add_empties:
  "lru_run (lru_New mb cb) ops = Some c \<Longrightarrow> 0 < mb \<Longrightarrow> mb < int (length k) + Len v \<Longrightarrow>
     \<exists>c'. lru_Add c k v = Some c' \<and> lru_Len c' = 0 \<and> nbytes c' = 0 \<and>
          (\<forall>k'. fst (lru_Get c' k') = None)"
proof -
  assume r: "lru_run (lru_New mb cb) ops = Some c" and pos: "0 < mb"
    and big: "mb < int (length k) + Len v"
  define w where "w = lru_write c k v"
  have inv: "lru_inv c" using r by (rule lru_reachable_inv)
  have mb: "maxBytes w = mb"
    using lru_reachable_maxBytes [OF r] by (simp add: w_def lru_write_frame)
  have invw: "lru_inv w" unfolding w_def using inv by (rule lru_inv_write)
  obtain a rest where fr: "ll w = a # rest" "entry_size (elems w a) = int (length k) + Len v"
    using write_front [OF inv, of k v] unfolding w_def by blast
  obtain j where j: "evict_loop w = Some ((lru_RemoveOldest ^^ j) w)"
    using evict_loop_total [OF invw] mb pos by auto
  define c' where "c' = (lru_RemoveOldest ^^ j) w"
  have invc': "lru_inv c'" unfolding c'_def using invw by (rule lru_inv_funpow)
  have ex: "\<not> over_capacity c'" using evict_loop_exit [OF j] by (simp add: c'_def)
  have llc': "ll c' = take (length (ll w) - j) (ll w)" unfolding c'_def using invw by (rule funpow_ll)
  have empty: "ll c' = []"
  proof (rule ccontr)
    assume "ll c' \<noteq> []"
    then obtain m where m: "length (ll w) - j = Suc m" using llc' by (cases "length (ll w) - j") auto
    have "ll c' = a # take m rest" using llc' fr(1) m by simp
    then have "nbytes c' = entry_size (elems c' a) + sum_list (map (\<lambda>a. entry_size (elems c' a)) (take m rest))"
      using lru_inv_nbytes [OF invc'] by simp
    moreover have "elems c' = elems w" by (simp add: c'_def funpow_frame)
    ultimately have "int (length k) + Len v \<le> nbytes c'"
      using fr(2) sum_entry_size_nonneg [of "elems w" "take m rest"] by simp
    moreover have "maxBytes c' = mb" using mb by (simp add: c'_def funpow_frame)
    ultimately show False using ex big pos by (simp add: over_capacity_def)
  qed
  have "cache c' = Map.empty" using invc' empty by (rule lru_inv_empty_cache)
  moreover have "nbytes c' = 0" using lru_inv_nbytes [OF invc'] empty by simp
  moreover have "lru_Add c k v = Some c'" using j by (simp add: lru_Add_def w_def c'_def)
  ultimately show ?thesis using empty by (auto simp: lru_Len_def lru_Get_fst)
qed

text \<open>
  The theorem of C4 at a concrete store: capacity 10, after \<^verbatim>\<open>Add("k1", "1234")\<close> and
  \<^verbatim>\<open>Add("k2", "v")\<close>.
\<close>

theorem lru_counter_is_sum_witness:
  "lru_run (lru_New 10 False) [OpAdd ''k1'' (ByteView ''1234''), OpAdd ''k2'' (ByteView ''v'')]
     \<noteq> None \<and>
   nbytes (the (lru_run (lru_New 10 False)
     [OpAdd ''k1'' (ByteView ''1234''), OpAdd ''k2'' (ByteView ''v'')])) = 9 \<and>
   sum_list (map entry_size (entries (the (lru_run (lru_New 10 False)
     [OpAdd ''k1'' (ByteView ''1234''), OpAdd ''k2'' (ByteView ''v'')])))) = 9 \<and>
   cache (the (lru_run (lru_New 10 False)
     [OpAdd ''k1'' (ByteView ''1234''), OpAdd ''k2'' (ByteView ''v'')])) ''k1'' = Some 0 \<and>
   nbytes (lru_write (the (lru_run (lru_New 10 False)
     [OpAdd ''k1'' (ByteView ''1234''), OpAdd ''k2'' (ByteView ''v'')])) ''k1'' (ByteView ''x'')) = 6 \<and>
   nbytes (lru_RemoveOldest (the (lru_run (lru_New 10 False)
     [OpAdd ''k1'' (ByteView ''1234''), OpAdd ''k2'' (ByteView ''v'')]))) = 3"
proof -
  define c where "c = the (lru_run (lru_New 10 False)
     [OpAdd ''k1'' (ByteView ''1234''), OpAdd ''k2'' (ByteView ''v'')])"
  have run: "lru_run (lru_New 10 False)
     [OpAdd ''k1'' (ByteView ''1234''), OpAdd ''k2'' (ByteView ''v'')] = Some c"
    unfolding c_def by (simp add: lru_eval)
  have n: "nbytes c = 9" and k1: "cache c ''k1'' = Some 0" and ne: "ll c \<noteq> []"
    and old: "Len (e_value (elems c 0)) = 4" and lst: "entry_size (elems c (last (ll c))) = 6"
    unfolding c_def by (simp_all add: lru_eval)
  note t = lru_counter_is_sum [OF run]
  have "sum_list (map entry_size (entries c)) = 9" using t n by simp
  moreover have "nbytes (lru_write c ''k1'' (ByteView ''x'')) = 6"
    using t k1 n old by (simp add: Len_def)
  moreover have "nbytes (lru_RemoveOldest c) = 3" using t ne n lst by simp
  ultimately show ?thesis unfolding c_def [symmetric] using run n k1 by simp
qed

text \<open>
  The theorem of C2 at two concrete stores, of capacity 10 and of capacity 0, each holding
  \<open>k1\<close> when \<^verbatim>\<open>Add("k2", "12345")\<close> is called.
\<close>

theorem lru_add_within_capacity_witness:
  "lru_run (lru_New 10 False) [OpAdd ''k1'' (ByteView ''1234'')] \<noteq> None \<and>
   lru_Add (the (lru_run (lru_New 10 False) [OpAdd ''k1'' (ByteView ''1234'')]))
      ''k2'' (ByteView ''12345'') \<noteq> None \<and>
   nbytes (the (lru_Add (the (lru_run (lru_New 10 False) [OpAdd ''k1'' (ByteView ''1234'')]))
      ''k2'' (ByteView ''12345''))) \<le> 10 \<and>
   lru_run (lru_New 0 False) [OpAdd ''k1'' (ByteView ''1234'')] \<noteq> None \<and>
   fst (lru_Get (the (lru_Add (the (lru_run (lru_New 0 False) [OpAdd ''k1'' (ByteView ''1234'')]))
      ''k2'' (ByteView ''12345''))) ''k2'') = Some (ByteView ''12345'') \<and>
   fst (lru_Get (the (lru_Add (the (lru_run (lru_New 0 False) [OpAdd ''k1'' (ByteView ''1234'')]))
      ''k2'' (ByteView ''12345''))) ''k1'') = Some (ByteView ''1234'')"
proof -
  define c where "c = the (lru_run (lru_New 10 False) [OpAdd ''k1'' (ByteView ''1234'')])"
  define d where "d = the (lru_run (lru_New 0 False) [OpAdd ''k1'' (ByteView ''1234'')])"
  have rc: "lru_run (lru_New 10 False) [OpAdd ''k1'' (ByteView ''1234'')] = Some c"
    unfolding c_def by (simp add: lru_eval)
  have rd: "lru_run (lru_New 0 False) [OpAdd ''k1'' (ByteView ''1234'')] = Some d"
    unfolding d_def by (simp add: lru_eval)
  note tc = lru_add_within_capacity [OF rc, of "''k2''" "ByteView ''12345''"]
  note td = lru_add_within_capacity [OF rd, of "''k2''" "ByteView ''12345''"]
  obtain c' where c': "lru_Add c ''k2'' (ByteView ''12345'') = Some c'" using tc by auto
  have "maxBytes c' = 10"
    using c' lru_reachable_maxBytes [OF rc] by (auto simp: lru_Add_def lru_write_frame dest: evict_loop_exit)
  then have 1: "nbytes c' \<le> 10" using tc c' by auto
  obtain d' where d': "lru_Add d ''k2'' (ByteView ''12345'') = Some d'"
    "fst (lru_Get d' ''k2'') = Some (ByteView ''12345'')"
    "fst (lru_Get d' ''k1'') = fst (lru_Get d ''k1'')"
    using td by auto
  have "fst (lru_Get d ''k1'') = Some (ByteView ''1234'')" unfolding d_def by (simp add: lru_eval)
  then show ?thesis unfolding c_def [symmetric] d_def [symmetric] using rc rd c' 1 d' by simp
qed

text \<open>
  Counterexample to C2 as written: a store of capacity 0 holds one entry after
  \<^verbatim>\<open>Add("a", "1")\<close>, and \<^verbatim>\<open>RemoveOldest\<close> evicts it.
\<close>

theorem lru_zero_capacity_counterexample:
  "map_option maxBytes (lru_run (lru_New 0 False) [OpAdd ''a'' (ByteView ''1'')]) = Some 0 \<and>
   map_option lru_Len (lru_run (lru_New 0 False) [OpAdd ''a'' (ByteView ''1'')]) = Some 1 \<and>
   map_option lru_Len (lru_run (lru_New 0 False) [OpAdd ''a'' (ByteView ''1''), OpRemoveOldest])
     = Some 0"
  by (simp add: lru_eval)

text \<open>
  The theorem of C3 at a concrete store: capacity 5, holding \<open>a\<close>, when
  \<^verbatim>\<open>Add("k", "123456")\<close> is called.
\<close>

theorem lru_oversized_add_empties_witness:
  "(0::int) < 5 \<and> 5 < int (length ''k'') + Len (ByteView ''123456'') \<and>
   lru_run (lru_New 5 False) [OpAdd ''a'' (ByteView ''1'')] \<noteq> None \<and>
   map_option lru_Len (lru_Add (the (lru_run (lru_New 5 False) [OpAdd ''a'' (ByteView ''1'')]))
      ''k'' (ByteView ''123456'')) = Some 0"
proof -
  define c where "c = the (lru_run (lru_New 5 False) [OpAdd ''a'' (ByteView ''1'')])"
  have rc: "lru_run (lru_New 5 False) [OpAdd ''a'' (ByteView ''1'')] = Some c"
    unfolding c_def by (simp add: lru_eval)
  have h1: "(0::int) < 5" by simp
  have h2: "5 < int (length ''k'') + Len (ByteView ''123456'')" by (simp add: Len_def)
  obtain c' where "lru_Add c ''k'' (ByteView ''123456'') = Some c'" "lru_Len c' = 0"
    using lru_oversized_add_empties [OF rc h1 h2] by auto
  then show ?thesis unfolding c_def [symmetric] using rc h2 by simp
qed

text \<open>
  Counterexample to C3 as written: with capacity 5, \<^verbatim>\<open>Add("k", "123456")\<close> (size 7) leaves
  no entry resident, on a fresh store and on a store that holds another entry.
\<close>

theorem lru_oversized_add_counterexample:
  "map_option lru_Len (lru_run (lru_New 5 False) [OpAdd ''k'' (ByteView ''123456'')]) = Some 0 \<and>
   map_option lru_Len (lru_run (lru_New 5 False)
      [OpAdd ''a'' (ByteView ''1''), OpAdd ''k'' (ByteView ''123456'')]) = Some 0"
  by (simp add: lru_eval)

lemma funpow8: "(f ^^ 8) x = f (f (f (f (f (f (f (f x)))))))"
  by (simp add: numeral_eq_Suc)

lemma Search_loop_stop: "\<not> i < j \<Longrightarrow> Search_loop f i j = Inr i"
  by (subst Search_loop.simps) simp

lemma Search_loop_right:
  "i < j \<Longrightarrow> f ((i + j) div 2) = Inr False \<Longrightarrow>
   Search_loop f i j = Search_loop f ((i + j) div 2 + 1) j"
  by (subst Search_loop.simps) (simp add: Let_def)

lemma Search_loop_left:
  "i < j \<Longrightarrow> f ((i + j) div 2) = Inr True \<Longrightarrow>
   Search_loop f i j = Search_loop f i ((i + j) div 2)"
  by (subst Search_loop.simps) (simp add: Let_def)

lemma Itoa_nat_digit: "n < 10 \<Longrightarrow> Itoa_nat n = [''0123456789'' ! n]"
  by (subst Itoa_nat.simps) simp

lemma Itoa_nat_more:
  "\<not> n < 10 \<Longrightarrow> Itoa_nat n = Itoa_nat (n div 10) @ [''0123456789'' ! (n mod 10)]"
  by (subst Itoa_nat.simps) simp

lemma char_of_0: "char_of (0::int) = CHR 0x00"
  by code_simp

lemmas ring_eval = Map_Get_def Map_Add_def Map_Add_rune_def add_all_def add_key_def
  add_point_def consistenthash_New_def index_def string_of_rune_def char_of_0
  Itoa_def Itoa_nat_digit Itoa_nat_more Search_def Search_loop_stop Search_loop_left
  Search_loop_right Let_def ChecksumIEEE_def crc32_update_def crc32_bit_def funpow8
  upt_conv_Cons successor_point_def

lemma add_point_sel:
  "keys (add_point label key i m) = keys m @ [point label m key i]"
  "hashMap (add_point label key i m) = (hashMap m)(point label m key i \<mapsto> key)"
  "hash (add_point label key i m) = hash m"
  "replicas (add_point label key i m) = replicas m"
  by (simp_all add: add_point_def point_def Let_def)

lemma point_cong: "hash m' = hash m \<Longrightarrow> point label m' key i = point label m key i"
  by (simp add: point_def)

lemma fold_add_point:
  "keys (fold (add_point label key) is m) = keys m @ map (point label m key) is \<and>
   hashMap (fold (add_point label key) is m) =
     (\<lambda>p. if p \<in> point label m key ` set is then Some key else hashMap m p) \<and>
   hash (fold (add_point label key) is m) = hash m \<and>
   replicas (fold (add_point label key) is m) = replicas m"
proof (induction "is" arbitrary: m)
  case Nil
  show ?case by simp
next
  case (Cons i "is")
  have p: "\<And>j. point label (add_point label key i m) key j = point label m key j"
    by (rule point_cong) (simp add: add_point_sel)
  show ?case
    using Cons [of "add_point label key i m"]
    by (auto simp: add_point_sel p cong: map_cong)
qed

lemma add_key_sel:
  "keys (add_key label key m) = keys m @ map (point label m key) [0 ..< nat (replicas m)]"
  "hashMap (add_key label key m) =
     (\<lambda>p. if p \<in> point label m key ` {0 ..< nat (replicas m)} then Some key else hashMap m p)"
  "hash (add_key label key m) = hash m"
  "replicas (add_key label key m) = replicas m"
  using fold_add_point [of label key "[0 ..< nat (replicas m)]" m]
  by (simp_all add: add_key_def)

lemma ran_if_subset:
  "ran (\<lambda>p. if p \<in> S then Some key else f p) \<subseteq> insert key (ran f)"
  by (auto simp: ran_def split: if_splits)

lemma dom_if: "dom (\<lambda>p. if p \<in> S then Some key else f p) = S \<union> dom f"
  by (auto simp: dom_def split: if_splits)

lemma fold_add_key:
  "keys (fold (add_key label) ks m) = keys m @ new_points label m ks \<and>
   hash (fold (add_key label) ks m) = hash m \<and>
   replicas (fold (add_key label) ks m) = replicas m \<and>
   dom (hashMap (fold (add_key label) ks m)) = dom (hashMap m) \<union> set (new_points label m ks) \<and>
   ran (hashMap (fold (add_key label) ks m)) \<subseteq> ran (hashMap m) \<union> set ks"
proof (induction ks arbitrary: m)
  case Nil
  show ?case by (simp add: new_points_def)
next
  case (Cons k ks)
  let ?m = "add_key label k m"
  have p: "\<And>key j. point label ?m key j = point label m key j"
    by (rule point_cong) (simp add: add_key_sel)
  have np: "new_points label ?m ks = new_points label m ks"
    by (simp add: new_points_def p add_key_sel cong: map_cong)
  have npc: "new_points label m (k # ks) =
      map (point label m k) [0 ..< nat (replicas m)] @ new_points label m ks"
    by (simp add: new_points_def)
  have d: "dom (hashMap ?m) = dom (hashMap m) \<union> point label m k ` {0 ..< nat (replicas m)}"
    by (simp add: add_key_sel dom_if Un_commute)
  have r: "ran (hashMap ?m) \<subseteq> insert k (ran (hashMap m))"
    by (simp add: add_key_sel ran_if_subset)
  note ih = Cons [of ?m]
  have 1: "keys (fold (add_key label) (k # ks) m) = keys m @ new_points label m (k # ks)"
    using ih by (simp add: np npc add_key_sel)
  have 2: "hash (fold (add_key label) (k # ks) m) = hash m"
    "replicas (fold (add_key label) (k # ks) m) = replicas m"
    using ih by (simp_all add: add_key_sel)
  have 3: "dom (hashMap (fold (add_key label) (k # ks) m)) =
      dom (hashMap m) \<union> set (new_points label m (k # ks))"
    using ih by (simp add: np npc d Un_assoc)
  have 4: "ran (hashMap (fold (add_key label) (k # ks) m)) \<subseteq> ran (hashMap m) \<union> set (k # ks)"
    using ih r by auto
  show ?case using 1 2 3 4 by blast
qed

lemma add_all_sel:
  "keys (add_all label m ks) = sort (keys m @ new_points label m ks)"
  "hash (add_all label m ks) = hash m"
  "replicas (add_all label m ks) = replicas m"
  "hashMap (add_all label m ks) = hashMap (fold (add_key label) ks m)"
  using fold_add_key [of label ks m] by (simp_all add: add_all_def Let_def)

lemma length_new_points: "length (new_points label m ks) = nat (replicas m) * length ks"
  by (induction ks) (simp_all add: new_points_def)

lemma ring_ok_New: "ring_ok (consistenthash_New r fn) {}"
  by (simp add: ring_ok_def consistenthash_New_def)

lemma ring_ok_add_all:
  assumes "ring_ok m P"
  shows "ring_ok (add_all label m ks) (P \<union> set ks)"
proof -
  note f = fold_add_key [of label ks m]
  have "set (keys (add_all label m ks)) = dom (hashMap (add_all label m ks))"
    using assms f by (simp add: add_all_sel ring_ok_def)
  moreover have "ran (hashMap (add_all label m ks)) \<subseteq> P \<union> set ks"
    using assms f unfolding add_all_sel ring_ok_def by blast
  ultimately show ?thesis by (simp add: ring_ok_def add_all_sel)
qed

lemma ring_ok_foldl:
  "ring_ok m P \<Longrightarrow> ring_ok (foldl Map_Add m pss) (P \<union> \<Union> (set ` set pss))"
proof (induction pss arbitrary: m P)
  case Nil
  then show ?case by simp
next
  case (Cons ps pss)
  have "ring_ok (Map_Add m ps) (P \<union> set ps)"
    unfolding Map_Add_def using Cons.prems by (rule ring_ok_add_all)
  from Cons.IH [OF this] show ?case by (simp add: Un_assoc)
qed

lemma foldl_Map_Add_frame:
  "replicas (foldl Map_Add m pss) = replicas m \<and> hash (foldl Map_Add m pss) = hash m \<and>
   length (keys (foldl Map_Add m pss)) =
     length (keys m) + nat (replicas m) * sum_list (map length pss)"
proof (induction pss arbitrary: m)
  case Nil
  show ?case by simp
next
  case (Cons ps pss)
  show ?case using Cons [of "Map_Add m ps"]
    by (simp add: Map_Add_def add_all_sel length_new_points distrib_left)
qed

lemma Search_loop_spec:
  assumes tot: "\<forall>k<n. f k = Inr (g k)"
    and mono: "\<forall>a b. a \<le> b \<and> b < n \<and> g a \<longrightarrow> g b"
  shows "i \<le> j \<Longrightarrow> j \<le> n \<Longrightarrow> (\<forall>k<i. \<not> g k) \<Longrightarrow> (\<forall>k. j \<le> k \<and> k < n \<longrightarrow> g k) \<Longrightarrow>
         \<exists>r. Search_loop f i j = Inr r \<and> i \<le> r \<and> r \<le> j \<and>
             (\<forall>k<r. \<not> g k) \<and> (\<forall>k. r \<le> k \<and> k < n \<longrightarrow> g k)"
proof (induction "j - i" arbitrary: i j rule: less_induct)
  case less
  show ?case
  proof (cases "i < j")
    case False
    then have "Search_loop f i j = Inr i" by (rule Search_loop_stop)
    moreover have "i = j" using False less.prems(1) by simp
    ultimately show ?thesis using less.prems(3,4) by auto
  next
    case True
    define h where "h = (i + j) div 2"
    have hb: "i \<le> h" "h < j" "h < n" using True less.prems(2) by (auto simp: h_def)
    have fh: "f h = Inr (g h)" using tot hb(3) by simp
    show ?thesis
    proof (cases "g h")
      case False
      have below: "\<forall>k<h + 1. \<not> g k"
      proof (intro allI impI)
        fix k assume "k < h + 1"
        then have "k \<le> h" by simp
        then show "\<not> g k" using mono hb(3) False by blast
      qed
      have "j - (h + 1) < j - i" using hb by simp
      moreover have "h + 1 \<le> j" using hb by simp
      ultimately have "\<exists>r. Search_loop f (h + 1) j = Inr r \<and> h + 1 \<le> r \<and> r \<le> j \<and>
             (\<forall>k<r. \<not> g k) \<and> (\<forall>k. r \<le> k \<and> k < n \<longrightarrow> g k)"
        using less.prems(2,4) below by (intro less.hyps)
      moreover have "Search_loop f i j = Search_loop f (h + 1) j"
        using True fh False unfolding h_def by (simp add: Search_loop_right)
      ultimately show ?thesis using hb(1) by auto
    next
      case gh: True
      have above: "\<forall>k. h \<le> k \<and> k < n \<longrightarrow> g k" using mono gh by blast
      have "h - i < j - i" using hb by simp
      moreover have "h \<le> n" using hb by simp
      ultimately have "\<exists>r. Search_loop f i h = Inr r \<and> i \<le> r \<and> r \<le> h \<and>
             (\<forall>k<r. \<not> g k) \<and> (\<forall>k. r \<le> k \<and> k < n \<longrightarrow> g k)"
        using hb(1) less.prems(3) above by (intro less.hyps)
      moreover have "Search_loop f i j = Search_loop f i h"
        using True fh gh unfolding h_def by (simp add: Search_loop_left)
      ultimately show ?thesis using hb(2) by auto
    qed
  qed
qed

lemma Search_spec:
  assumes "\<forall>k<n. f k = Inr (g k)" and "\<forall>a b. a \<le> b \<and> b < n \<and> g a \<longrightarrow> g b"
  shows "\<exists>r. Search n f = Inr r \<and> r \<le> n \<and> (\<forall>k<r. \<not> g k) \<and> (\<forall>k. r \<le> k \<and> k < n \<longrightarrow> g k)"
proof -
  have "\<forall>k<0::nat. \<not> g k" "\<forall>k. n \<le> k \<and> k < n \<longrightarrow> g k" by auto
  with Search_loop_spec [OF assms, of 0 n] show ?thesis by (simp add: Search_def)
qed

lemma successor_point_sorted:
  assumes s: "sorted ks" and ne: "ks \<noteq> []" and r: "r \<le> length ks"
    and below: "\<forall>k<r. \<not> h \<le> ks ! k" and above: "\<forall>k. r \<le> k \<and> k < length ks \<longrightarrow> h \<le> ks ! k"
  shows "ks ! (r mod length ks) = successor_point ks h"
proof (cases "r < length ks")
  case True
  let ?A = "set (filter (\<lambda>q. h \<le> q) ks)"
  have mem: "ks ! r \<in> ?A" using True above by simp
  have least: "\<And>q. q \<in> ?A \<Longrightarrow> ks ! r \<le> q"
  proof -
    fix q assume "q \<in> ?A"
    then obtain j where j: "j < length ks" "ks ! j = q" "h \<le> q" by (auto simp: in_set_conv_nth)
    have "r \<le> j" using below j by (meson not_le)
    then show "ks ! r \<le> q" using s j by (auto simp: sorted_iff_nth_mono)
  qed
  have "Min ?A = ks ! r" using mem least by (intro Min_eqI) auto
  moreover have "filter (\<lambda>q. h \<le> q) ks \<noteq> []" using mem by (auto simp: filter_empty_conv)
  ultimately show ?thesis using True by (simp add: successor_point_def)
next
  case False
  then have rn: "r = length ks" using r by simp
  have "filter (\<lambda>q. h \<le> q) ks = []"
    using below rn by (auto simp: filter_empty_conv in_set_conv_nth)
  moreover have "Min (set ks) = ks ! 0"
  proof (rule Min_eqI)
    show "finite (set ks)" by simp
    show "ks ! 0 \<in> set ks" using ne by simp
    fix y assume "y \<in> set ks"
    then obtain j where "j < length ks" "ks ! j = y" by (auto simp: in_set_conv_nth)
    then show "ks ! 0 \<le> y" using s by (auto simp: sorted_iff_nth_mono)
  qed
  ultimately show ?thesis using rn by (simp add: successor_point_def)
qed

lemma Map_Get_empty: "keys m = [] \<Longrightarrow> Map_Get m key = Inr []"
  by (simp add: Map_Get_def)

lemma Map_Get_owner:
  assumes ok: "ring_ok m P" and ne: "keys m \<noteq> []"
  shows "\<exists>p\<in>P. Map_Get m key = Inr p \<and>
           hashMap m (successor_point (keys m) (uint (hash m key))) = Some p"
proof -
  define ks where "ks = keys m"
  define h where "h = uint (hash m key)"
  define f where "f = (\<lambda>i. case index ks i of Inl e \<Rightarrow> Inl e | Inr p \<Rightarrow> Inr (h \<le> p))"
  have s: "sorted ks" using ok by (simp add: ring_ok_def ks_def)
  have tot: "\<forall>k<length ks. f k = Inr (h \<le> ks ! k)" by (simp add: f_def index_def)
  have mono: "\<forall>a b. a \<le> b \<and> b < length ks \<and> h \<le> ks ! a \<longrightarrow> h \<le> ks ! b"
  proof (intro allI impI)
    fix a b assume "a \<le> b \<and> b < length ks \<and> h \<le> ks ! a"
    then have "ks ! a \<le> ks ! b" "h \<le> ks ! a" using s by (auto simp: sorted_iff_nth_mono)
    then show "h \<le> ks ! b" by simp
  qed
  obtain r where r: "Search (length ks) f = Inr r" "r \<le> length ks"
    "\<forall>k<r. \<not> h \<le> ks ! k" "\<forall>k. r \<le> k \<and> k < length ks \<longrightarrow> h \<le> ks ! k"
    using Search_spec [OF tot mono] by blast
  have kne: "ks \<noteq> []" using ne by (simp add: ks_def)
  have sp: "ks ! (r mod length ks) = successor_point ks h"
    using s kne r(2,3,4) by (rule successor_point_sorted)
  have "r mod length ks < length ks" using kne by simp
  then have ix: "index ks (r mod length ks) = Inr (successor_point ks h)"
    and mem: "successor_point ks h \<in> set ks"
    using sp by (auto simp: index_def dest: nth_mem)
  then have "successor_point ks h \<in> dom (hashMap m)" using ok by (simp add: ring_ok_def ks_def)
  then obtain p where p: "hashMap m (successor_point ks h) = Some p" by auto
  then have "p \<in> P" using ok by (auto simp: ring_ok_def ran_def)
  moreover have "Map_Get m key = Inr p"
    using kne r(1) ix p
    by (simp add: Map_Get_def Let_def ks_def [symmetric] h_def [symmetric] f_def [symmetric])
  ultimately show ?thesis using p by (auto simp: ks_def h_def)
qed

text \<open>
  Claim C7, as amended.  Let the ring be built by \<^verbatim>\<open>New(R, fn)\<close> and any sequence of
  \<^verbatim>\<open>Add\<close> calls.  \<^verbatim>\<open>Get\<close> never panics.  If the ring has no points it returns the empty
  identifier.  If it has points it returns one of the added peer identifiers, the one
  recorded for the smallest point that is at least the key's hash, or for the smallest
  point of all when there is none.  The ring has points exactly when \<open>R \<ge> 1\<close> and a
  peer has been added.  \<^verbatim>\<open>Get\<close> does not write to the ring (it is a function of the ring
  state and the key), so repeated calls return the same peer.  The claim as written
  promises an added peer whenever a peer has been added; with \<open>R \<le> 0\<close> no peer gets a
  point and \<^verbatim>\<open>Get\<close> returns the empty identifier.
\<close>

theorem ring_get_returns_added_peer:
  "m = foldl Map_Add (consistenthash_New R fn) pss \<Longrightarrow>
     (keys m = [] \<longrightarrow> Map_Get m key = Inr []) \<and>
     (keys m \<noteq> [] \<longrightarrow>
        (\<exists>p \<in> \<Union> (set ` set pss). Map_Get m key = Inr p \<and>
           hashMap m (successor_point (keys m) (uint (hash m key))) = Some p)) \<and>
     (keys m \<noteq> [] \<longleftrightarrow> 0 < R \<and> (\<exists>ps \<in> set pss. ps \<noteq> []))"
proof -
  assume m: "m = foldl Map_Add (consistenthash_New R fn) pss"
  have ok: "ring_ok m (\<Union> (set ` set pss))"
    using ring_ok_foldl [OF ring_ok_New, of R fn pss] by (simp add: m)
  have len: "length (keys m) = nat R * sum_list (map length pss)"
    using foldl_Map_Add_frame [of "consistenthash_New R fn" pss]
    by (simp add: m consistenthash_New_def)
  have "sum_list (map length pss) = 0 \<longleftrightarrow> (\<forall>ps \<in> set pss. ps = [])"
    by (induction pss) auto
  then have 3: "keys m \<noteq> [] \<longleftrightarrow> 0 < R \<and> (\<exists>ps \<in> set pss. ps \<noteq> [])"
    using len by (metis length_0_conv mult_is_0 nat_0_iff not_le)
  have 1: "keys m = [] \<longrightarrow> Map_Get m key = Inr []" by (simp add: Map_Get_empty)
  have 2: "keys m \<noteq> [] \<longrightarrow>
        (\<exists>p \<in> \<Union> (set ` set pss). Map_Get m key = Inr p \<and>
           hashMap m (successor_point (keys m) (uint (hash m key))) = Some p)"
    using Map_Get_owner [OF ok] by blast
  show ?thesis using 1 2 3 by blast
qed

text \<open>
  The theorem of C7 at concrete rings over the peers \<open>6\<close>, \<open>4\<close>, \<open>2\<close> with the default
  hash: three replicas (the key \<open>b\<close> belongs to peer \<open>4\<close>) and no replicas.
\<close>

theorem ring_get_returns_added_peer_witness:
  "keys (foldl Map_Add (consistenthash_New 3 None) [[''6'', ''4'', ''2'']]) \<noteq> [] \<and>
   Map_Get (foldl Map_Add (consistenthash_New 3 None) [[''6'', ''4'', ''2'']]) ''b'' = Inr ''4'' \<and>
   successor_point (keys (foldl Map_Add (consistenthash_New 3 None) [[''6'', ''4'', ''2'']]))
       (uint (ChecksumIEEE ''b'')) = 2367533627 \<and>
   hashMap (foldl Map_Add (consistenthash_New 3 None) [[''6'', ''4'', ''2'']]) 2367533627
       = Some ''4'' \<and>
   keys (foldl Map_Add (consistenthash_New 0 None) [[''6'', ''4'', ''2'']]) = [] \<and>
   Map_Get (foldl Map_Add (consistenthash_New 0 None) [[''6'', ''4'', ''2'']]) ''b'' = Inr []"
proof -
  define m where "m = foldl Map_Add (consistenthash_New 3 None) [[''6'', ''4'', ''2'']]"
  define z where "z = foldl Map_Add (consistenthash_New 0 None) [[''6'', ''4'', ''2'']]"
  note tm = ring_get_returns_added_peer [OF m_def, of "''b''"]
  note tz = ring_get_returns_added_peer [OF z_def, of "''b''"]
  have ks: "keys m = [1212055764, 1330857165, 1361424789, 1447589260, 1662243607, 1685985038,
      2367533627, 2788221432, 3207319737]"
    unfolding m_def by (simp add: ring_eval)
  have h: "hash m = ChecksumIEEE" unfolding m_def by (simp add: ring_eval)
  have sp: "successor_point (keys m) (uint (ChecksumIEEE ''b'')) = 2367533627"
    unfolding ks by (simp add: ring_eval)
  have g: "Map_Get m ''b'' = Inr ''4''" unfolding m_def by (simp add: ring_eval)
  have ne: "keys m \<noteq> []" using tm by simp
  then have "hashMap m 2367533627 = Some ''4''" using tm g sp h by auto
  moreover have "keys z = []" using tz by simp
  moreover have "Map_Get z ''b'' = Inr []" using tz \<open>keys z = []\<close> by simp
  ultimately show ?thesis
    unfolding m_def [symmetric] z_def [symmetric] using ne g sp by simp
qed

text \<open>
  Counterexample to C7 as written: on \<^verbatim>\<open>New(0, nil)\<close> after \<^verbatim>\<open>Add("a")\<close>, \<^verbatim>\<open>Get("k")\<close>
  returns the empty identifier, which is not an added peer.
\<close>

theorem ring_get_zero_replicas_counterexample:
  "Map_Get (Map_Add (consistenthash_New 0 None) [''a'']) ''k'' = Inr [] \<and> [] \<notin> set [''a'']"
  by (simp add: ring_eval)

lemma fold_getters:
  "fold (\<lambda>peer g. g(peer \<mapsto> G peer)) ps g0 =
     (\<lambda>peer. if peer \<in> set ps then Some (G peer) else g0 peer)"
  by (induction ps arbitrary: g0) (auto simp: fun_eq_iff)

lemma HTTPPool_Set_sel:
  "HTTPPool.peers (HTTPPool_Set p ps) = Some (Map_Add (consistenthash_New defaultReplicas None) ps)"
  "httpGetters (HTTPPool_Set p ps) =
     (\<lambda>peer. if peer \<in> set ps then Some \<lparr> baseURL = peer @ basePath p \<rparr> else None)"
  "self (HTTPPool_Set p ps) = self p"
  "basePath (HTTPPool_Set p ps) = basePath p"
  by (simp_all add: HTTPPool_Set_def fold_getters)

lemma PickPeer_after_Set:
  "\<exists>owner \<in> insert [] (set ps).
      Map_Get (Map_Add (consistenthash_New defaultReplicas None) ps) key = Inr owner \<and>
      PickPeer (HTTPPool_Set p ps) key =
        Inr (if owner \<noteq> [] \<and> owner \<noteq> self p
             then (Some \<lparr> baseURL = owner @ basePath p \<rparr>, True) else (None, False))"
proof -
  define m where "m = Map_Add (consistenthash_New defaultReplicas None) ps"
  have ok: "ring_ok m (set ps)"
    using ring_ok_add_all [OF ring_ok_New, of Itoa defaultReplicas None ps]
    by (simp add: m_def Map_Add_def)
  obtain owner where o: "owner \<in> insert [] (set ps)" "Map_Get m key = Inr owner"
  proof (cases "keys m = []")
    case True
    then have "Map_Get m key = Inr []" by (rule Map_Get_empty)
    then show ?thesis using that by simp
  next
    case False
    then show ?thesis using Map_Get_owner [OF ok False, of key] that by auto
  qed
  have "PickPeer (HTTPPool_Set p ps) key =
        Inr (if owner \<noteq> [] \<and> owner \<noteq> self p
             then (Some \<lparr> baseURL = owner @ basePath p \<rparr>, True) else (None, False))"
    using o by (auto simp: PickPeer_def HTTPPool_Set_sel m_def [symmetric])
  then show ?thesis using o unfolding m_def by blast
qed

lemma PickPeer_no_peers: "PickPeer (HTTPPool_Set p []) key = Inr (None, False)"
  using PickPeer_after_Set [of "[]" key p] by auto

text \<open>
  Claim C9 fails on the code.  On a pool fresh from \<^verbatim>\<open>NewHTTPPool\<close> the field
  \<^verbatim>\<open>peers\<close> is nil, and \<^verbatim>\<open>PickPeer\<close> calls \<^verbatim>\<open>p.peers.Get(key)\<close>, which reads
  \<^verbatim>\<open>m.keys\<close> through the nil pointer: a panic, where the claim says not-found.  Once
  \<^verbatim>\<open>Set\<close> has run the claim holds (\<open>PickPeer_after_Set\<close>, \<open>PickPeer_no_peers\<close>).
\<close>

theorem PickPeer_before_Set:
  "PickPeer (NewHTTPPool s) key = Inl NilPointerDereference"
  by (simp add: PickPeer_def NewHTTPPool_def)

text \<open>
  The \<^verbatim>\<open>Add\<close> that labels with \<^verbatim>\<open>strconv.Itoa(i) + key\<close> does what claim C8 says: it
  appends \<open>R\<close> points per peer, the \<open>i\<close>-th the hash of the decimal rendering of \<open>i\<close>
  followed by the peer, records the peer for each point, and leaves the points sorted.
\<close>

lemma Map_Add_points:
  "keys (Map_Add m ps) =
     sort (keys m @ concat (map (\<lambda>P. map (\<lambda>i. uint (hash m (Itoa (int i) @ P)))
                                   [0 ..< nat (replicas m)]) ps)) \<and>
   sorted (keys (Map_Add m ps)) \<and>
   length (keys (Map_Add m ps)) = length (keys m) + nat (replicas m) * length ps"
proof -
  have pe: "point Itoa m = (\<lambda>k i. uint (hash m (Itoa (int i) @ k)))"
    by (simp add: fun_eq_iff point_def)
  show ?thesis
    using length_new_points [of Itoa m ps]
    by (simp add: Map_Add_def add_all_sel new_points_def pe)
qed

lemma Map_Add_records_peer:
  "i < nat (replicas m) \<Longrightarrow> hashMap (Map_Add m [P]) (uint (hash m (Itoa (int i) @ P))) = Some P"
  by (simp add: Map_Add_def add_all_sel add_key_sel point_def)

text \<open>
  Claim C8 fails on the \<^verbatim>\<open>Add\<close> of \<^verbatim>\<open>consistent-hash/geecache/consistenthash\<close>, which
  labels with \<^verbatim>\<open>string(i) + key\<close>: for \<open>i = 0\<close> that is the byte 0 followed by the peer,
  not the digit \<open>0\<close>.  With the default hash and one replica, the point of peer \<open>6\<close> is
  the CRC-32 of the bytes \<open>00 36\<close>, 2388887398, where the claim (and the sibling \<^verbatim>\<open>Add\<close>)
  has the CRC-32 of \<open>06\<close>, 1361424789.
\<close>

theorem Map_Add_rune_label:
  "keys (Map_Add_rune (consistenthash_New 1 None) [''6'']) = [2388887398] \<and>
   uint (ChecksumIEEE (CHR 0x00 # ''6'')) = 2388887398 \<and>
   uint (ChecksumIEEE (Itoa 0 @ ''6'')) = 1361424789 \<and>
   keys (Map_Add (consistenthash_New 1 None) [''6'']) = [1361424789]"
  by (simp add: ring_eval)

section \<open>Properties of the cache shell\<close>

lemma write_front_entry:
  assumes inv: "lru_inv c"
  shows "\<exists>a rest. ll (lru_write c k v) = a # rest \<and>
           e_key (elems (lru_write c k v) a) = k \<and> e_value (elems (lru_write c k v) a) = v"
proof (cases "cache c k")
  case None
  then show ?thesis by (simp add: lru_write_miss)
next
  case (Some a)
  have "a \<in> set (ll c)" using inv Some by (rule lru_inv_mem)
  moreover have "e_key (elems c a) = k" using inv Some by (rule lru_inv_key)
  ultimately show ?thesis by (simp add: lru_write_hit [OF Some] MoveToFront_def)
qed

lemma evict_keeps_front:
  "lru_inv c \<Longrightarrow> ll c = a # rest \<Longrightarrow> 0 \<le> maxBytes c \<Longrightarrow>
   maxBytes c = 0 \<or> entry_size (elems c a) \<le> maxBytes c \<Longrightarrow>
   \<exists>c' rest'. evict_loop c = Some c' \<and> ll c' = a # rest' \<and> elems c' = elems c \<and> lru_inv c'"
proof (induction "length rest" arbitrary: c rest rule: less_induct)
  case less
  show ?case
  proof (cases "over_capacity c")
    case False
    then have "evict_loop c = Some c" by (rule evict_loop_stop)
    then show ?thesis using less.prems by auto
  next
    case True
    have rne: "rest \<noteq> []"
    proof
      assume "rest = []"
      then have "nbytes c = entry_size (elems c a)"
        using lru_inv_nbytes [OF less.prems(1)] less.prems(2) by simp
      then show False using True less.prems(4) by (auto simp: over_capacity_def)
    qed
    let ?r = "lru_RemoveOldest c"
    have llr: "ll ?r = a # butlast rest"
      using less.prems(1,2) rne by (simp add: lru_RemoveOldest_ll)
    have "length (butlast rest) < length rest" using rne by simp
    moreover have "lru_inv ?r" using less.prems(1) by (rule lru_inv_RemoveOldest)
    moreover have "0 \<le> maxBytes ?r" using less.prems(3) by (simp add: lru_RemoveOldest_frame)
    moreover have "maxBytes ?r = 0 \<or> entry_size (elems ?r a) \<le> maxBytes ?r"
      using less.prems(4) by (simp add: lru_RemoveOldest_frame)
    ultimately have "\<exists>c' rest'. evict_loop ?r = Some c' \<and> ll c' = a # rest' \<and>
        elems c' = elems ?r \<and> lru_inv c'"
      using llr by (intro less.hyps)
    then show ?thesis using True by (simp add: evict_loop_step lru_RemoveOldest_frame)
  qed
qed

lemma lru_Add_resident:
  assumes inv: "lru_inv c" and nn: "0 \<le> maxBytes c"
    and fits: "maxBytes c = 0 \<or> int (length k) + Len v \<le> maxBytes c"
  shows "\<exists>c'. lru_Add c k v = Some c' \<and> fst (lru_Get c' k) = Some v"
proof -
  define w where "w = lru_write c k v"
  have invw: "lru_inv w" unfolding w_def using inv by (rule lru_inv_write)
  obtain a rest where fr: "ll w = a # rest" "e_key (elems w a) = k" "e_value (elems w a) = v"
    using write_front_entry [OF inv, of k v] unfolding w_def by blast
  have mb: "maxBytes w = maxBytes c" by (simp add: w_def lru_write_frame)
  have "maxBytes w = 0 \<or> entry_size (elems w a) \<le> maxBytes w"
    using fits fr(2,3) by (simp add: mb entry_size_def)
  then obtain c' rest' where c': "evict_loop w = Some c'" "ll c' = a # rest'"
      "elems c' = elems w" "lru_inv c'"
    using evict_keeps_front [OF invw fr(1)] nn mb by auto
  have "cache c' (e_key (elems c' a)) = Some a"
    using c'(4) by (rule lru_inv_cache_of) (simp add: c'(2))
  then have "fst (lru_Get c' k) = Some v" using fr(2,3) c'(3) by (simp add: lru_Get_fst)
  then show ?thesis using c'(1) by (simp add: lru_Add_def w_def)
qed

lemma lru_run_append:
  "lru_run c (xs @ ys) = (case lru_run c xs of None \<Rightarrow> None | Some c' \<Rightarrow> lru_run c' ys)"
  by (induction xs arbitrary: c) (auto split: option.splits)

lemma cache_get_miss: "fst (cache_get c k) = None \<Longrightarrow> snd (cache_get c k) = c"
  by (auto simp: cache_get_def lru_Get_def split: option.splits)

lemma cache_ok_lru:
  assumes "cache_ok c"
  shows "lru_inv (case lru c of None \<Rightarrow> lru_New (cacheBytes c) False | Some l \<Rightarrow> l) \<and>
         maxBytes (case lru c of None \<Rightarrow> lru_New (cacheBytes c) False | Some l \<Rightarrow> l) = cacheBytes c"
proof (cases "lru c")
  case None
  then show ?thesis by (simp add: lru_inv_New) (simp add: lru_New_def)
next
  case (Some l)
  then obtain ops where "lru_run (lru_New (cacheBytes c) False) ops = Some l"
    using assms by (auto simp: cache_ok_def)
  then show ?thesis using Some by (simp add: lru_reachable_inv lru_reachable_maxBytes)
qed

lemma cache_add_resident:
  assumes ok: "cache_ok c"
    and fits: "cacheBytes c = 0 \<or> (0 \<le> cacheBytes c \<and> int (length k) + Len v \<le> cacheBytes c)"
  shows "\<exists>c'. cache_add c k v = Some c' \<and> fst (cache_get c' k) = Some v"
proof -
  define l where "l = (case lru c of None \<Rightarrow> lru_New (cacheBytes c) False | Some l \<Rightarrow> l)"
  have l: "lru_inv l" "maxBytes l = cacheBytes c" using cache_ok_lru [OF ok] by (simp_all add: l_def)
  obtain l' where l': "lru_Add l k v = Some l'" "fst (lru_Get l' k) = Some v"
    using lru_Add_resident [OF l(1), of k v] fits l(2) by auto
  have "cache_add c k v = Some (c\<lparr> lru := Some l' \<rparr>)"
    using l'(1) by (simp add: cache_add_def l_def [symmetric])
  moreover have "fst (cache_get (c\<lparr> lru := Some l' \<rparr>) k) = Some v"
    using l'(2) by (cases "lru_Get l' k") (simp add: cache_get_def)
  ultimately show ?thesis by blast
qed

lemma cache_add_total:
  assumes ok: "cache_ok c" and nn: "0 \<le> cacheBytes c"
  shows "\<exists>c'. cache_add c k v = Some c'"
proof -
  define l where "l = (case lru c of None \<Rightarrow> lru_New (cacheBytes c) False | Some l \<Rightarrow> l)"
  have l: "lru_inv l" "maxBytes l = cacheBytes c" using cache_ok_lru [OF ok] by (simp_all add: l_def)
  obtain l' where "lru_Add l k v = Some l'" using lru_Add_total [OF l(1), of k v] nn l(2) by auto
  then show ?thesis by (simp add: cache_add_def l_def [symmetric])
qed

section \<open>Properties of a group's read\<close>

lemma Group_Get_miss:
  assumes "key \<noteq> []" and "fst (cache_get (mainCache g) key) = None"
  shows "Group_Get g key = load g key"
proof -
  have "cache_get (mainCache g) key = (None, mainCache g)"
    using assms(2) cache_get_miss [OF assms(2)] by (cases "cache_get (mainCache g) key") simp
  then show ?thesis using assms(1) by (simp add: Group_Get_def)
qed

lemma getLocally_eq:
  "getLocally g key =
     (case getter g key of
        (lb, Some le) \<Rightarrow> Returns ((ByteView [], Some le), g)
      | (lb, None) \<Rightarrow>
          (case cache_add (mainCache g) key (ByteView (cloneBytes lb)) of
             None \<Rightarrow> Diverges
           | Some c \<Rightarrow> Returns ((ByteView (cloneBytes lb), None), g\<lparr> mainCache := c \<rparr>)))"
  by (simp add: getLocally_def populateCache_def Let_def split: prod.splits option.splits)

lemma getLocally_loader:
  "getLocally g key = Returns (r, g') \<Longrightarrow> loader g' = loader g"
  by (auto simp: getLocally_eq split: prod.splits option.splits)

lemma getLocally_error_value:
  "getLocally g key = Returns ((v, Some e), g') \<Longrightarrow> v = ByteView []"
  by (auto simp: getLocally_eq split: prod.splits option.splits)

lemma getLocally_no_panic: "getLocally g key \<noteq> Panics p"
  by (auto simp: getLocally_eq split: prod.splits option.splits)

text \<open>The load when no call for the key is in flight and the function literal reaches the loader.\<close>

lemma load_locally:
  assumes idle: "loader g key = None"
    and fn: "load_fn key (ByteView [], g) =
              (case getLocally g key of
                 Returns (r, g') \<Rightarrow> Returns (r, (ByteView [], g'))
               | Panics p \<Rightarrow> Panics p
               | Diverges \<Rightarrow> Diverges)"
  shows "load g key = getLocally g key"
proof (cases "getLocally g key")
  case (Returns x)
  obtain v e g' where x: "x = ((v, e), g')" by (cases x) auto
  have "(loader g)(key := None) = loader g'"
    using getLocally_loader [OF Returns [unfolded x]] idle by (simp add: fun_upd_idem)
  then have l: "g'\<lparr> loader := (loader g)(key := None) \<rparr> = g'" by simp
  show ?thesis
  proof (cases e)
    case None
    then show ?thesis using Returns x l idle fn by (simp add: load_def Do_def)
  next
    case (Some e')
    then have "v = ByteView []" using getLocally_error_value Returns x by blast
    then show ?thesis using Returns x l idle fn Some by (simp add: load_def Do_def)
  qed
next
  case (Panics p)
  then show ?thesis using idle fn by (simp add: load_def Do_def)
next
  case Diverges
  then show ?thesis using idle fn by (simp add: load_def Do_def)
qed

lemma load_fn_no_picker:
  "Group.peers g = None \<Longrightarrow>
   load_fn key (v0, g) =
     (case getLocally g key of
        Returns (r, g') \<Rightarrow> Returns (r, (v0, g'))
      | Panics p \<Rightarrow> Panics p
      | Diverges \<Rightarrow> Diverges)"
  by (simp add: load_fn_def)

lemma load_fn_not_found:
  "Group.peers g = Some picker \<Longrightarrow> picker key = Inr (peer, False) \<Longrightarrow>
   load_fn key (v0, g) =
     (case getLocally g key of
        Returns (r, g') \<Rightarrow> Returns (r, (v0, g'))
      | Panics p \<Rightarrow> Panics p
      | Diverges \<Rightarrow> Diverges)"
  by (simp add: load_fn_def)

lemma load_fn_peer_fails:
  "Group.peers g = Some picker \<Longrightarrow> picker key = Inr (Some get, True) \<Longrightarrow>
   get (name g) key = (pb, Some pe) \<Longrightarrow>
   load_fn key (v0, g) =
     (case getLocally g key of
        Returns (r, g') \<Rightarrow> Returns (r, (ByteView [], g'))
      | Panics p \<Rightarrow> Panics p
      | Diverges \<Rightarrow> Diverges)"
  by (simp add: load_fn_def getFromPeer_def)

lemma load_fn_peer_succeeds:
  "Group.peers g = Some picker \<Longrightarrow> picker key = Inr (Some get, True) \<Longrightarrow>
   get (name g) key = (pb, None) \<Longrightarrow>
   load_fn key (v0, g) = Returns ((ByteView pb, None), (ByteView pb, g))"
  by (simp add: load_fn_def getFromPeer_def)

lemma load_remote:
  assumes idle: "loader g key = None"
    and "Group.peers g = Some picker" "picker key = Inr (Some get, True)"
    and "get (name g) key = (pb, None)"
  shows "load g key = Returns ((ByteView pb, None), g)"
proof -
  have "(loader g)(key := None) = loader g" using idle by (simp add: fun_upd_idem)
  then have "g\<lparr> loader := (loader g)(key := None) \<rparr> = g" by simp
  then show ?thesis
    using idle load_fn_peer_succeeds [OF assms(2-4)] by (simp add: load_def Do_def)
qed

text \<open>
  Claim C5.  Take a read \<^verbatim>\<open>Group.Get(key)\<close> of a non-empty key that misses the cache, with no
  load of the key in flight, and that is routed to a remote peer whose fetch fails (or has
  no peer picker, or whose picker answers not-found).  Its result is the loader's alone:
  if the loader fails, \<^verbatim>\<open>Get\<close> returns the loader's error, unchanged, with the empty byte
  view and leaves the group as it was; if the loader succeeds, \<^verbatim>\<open>Get\<close> returns the loaded
  bytes with a nil error, the group's cache being what \<^verbatim>\<open>add(key, value)\<close> makes of it.  The
  peer's error occurs nowhere in the result.  On a cache the program can reach, of capacity
  at least 0, \<^verbatim>\<open>Get\<close> does return, and the error it returns is the loader's.  (With a
  negative capacity the cache's \<^verbatim>\<open>add\<close> never returns, and neither does \<^verbatim>\<open>Get\<close>.)
\<close>

theorem peer_error_masked_by_loader:
  assumes key: "key \<noteq> []" and miss: "fst (cache_get (mainCache g) key) = None"
    and idle: "loader g key = None"
    and route: "Group.peers g = None \<or>
                (\<exists>picker peer. Group.peers g = Some picker \<and> picker key = Inr (peer, False)) \<or>
                (\<exists>picker get pb pe. Group.peers g = Some picker \<and>
                   picker key = Inr (Some get, True) \<and> get (name g) key = (pb, Some pe))"
  shows "Group_Get g key =
           (case getter g key of
              (lb, Some le) \<Rightarrow> Returns ((ByteView [], Some le), g)
            | (lb, None) \<Rightarrow>
                (case cache_add (mainCache g) key (ByteView (cloneBytes lb)) of
                   None \<Rightarrow> Diverges
                 | Some c \<Rightarrow> Returns ((ByteView (cloneBytes lb), None), g\<lparr> mainCache := c \<rparr>))) \<and>
         (cache_ok (mainCache g) \<and> 0 \<le> cacheBytes (mainCache g) \<longrightarrow>
            (\<exists>v g'. Group_Get g key = Returns ((v, snd (getter g key)), g')))"
proof -
  have fn: "load_fn key (ByteView [], g) =
              (case getLocally g key of
                 Returns (r, g') \<Rightarrow> Returns (r, (ByteView [], g'))
               | Panics p \<Rightarrow> Panics p
               | Diverges \<Rightarrow> Diverges)"
    using route load_fn_no_picker load_fn_not_found load_fn_peer_fails by blast
  have eq: "Group_Get g key = getLocally g key"
    using Group_Get_miss [OF key miss] load_locally [OF idle fn] by simp
  have 1: "Group_Get g key =
           (case getter g key of
              (lb, Some le) \<Rightarrow> Returns ((ByteView [], Some le), g)
            | (lb, None) \<Rightarrow>
                (case cache_add (mainCache g) key (ByteView (cloneBytes lb)) of
                   None \<Rightarrow> Diverges
                 | Some c \<Rightarrow> Returns ((ByteView (cloneBytes lb), None), g\<lparr> mainCache := c \<rparr>)))"
    unfolding eq by (rule getLocally_eq)
  have 2: "cache_ok (mainCache g) \<and> 0 \<le> cacheBytes (mainCache g) \<longrightarrow>
            (\<exists>v g'. Group_Get g key = Returns ((v, snd (getter g key)), g'))"
  proof
    assume ok: "cache_ok (mainCache g) \<and> 0 \<le> cacheBytes (mainCache g)"
    obtain lb le where gt: "getter g key = (lb, le)" by (cases "getter g key") auto
    show "\<exists>v g'. Group_Get g key = Returns ((v, snd (getter g key)), g')"
    proof (cases le)
      case None
      obtain c where "cache_add (mainCache g) key (ByteView (cloneBytes lb)) = Some c"
        using cache_add_total ok by blast
      then show ?thesis using 1 gt None by simp
    next
      case (Some e)
      then show ?thesis using 1 gt by simp
    qed
  qed
  show ?thesis using 1 2 by blast
qed

text \<open>
  The theorem of C5 at the group \<open>scores\<close> over \<^verbatim>\<open>db\<close>, with a picker that routes every key
  to a peer answering status 500: \<^verbatim>\<open>Get("kkk")\<close> returns the loader's error
  \<open>kkk not exist\<close>, and \<^verbatim>\<open>Get("Tom")\<close> returns the loader's \<open>630\<close>.
\<close>

theorem peer_error_masked_by_loader_witness:
  "Group_Get \<lparr> name = ''scores'', getter = db_getter,
               mainCache = \<lparr> lru = None, cacheBytes = 2048 \<rparr>,
               peers = Some (\<lambda>k. Inr (Some (\<lambda>grp k'. ([], Some (Error ''server returned: 500''))), True)),
               loader = Map.empty \<rparr> ''kkk''
     = Returns ((ByteView [], Some (Error ''kkk not exist'')),
                \<lparr> name = ''scores'', getter = db_getter,
                  mainCache = \<lparr> lru = None, cacheBytes = 2048 \<rparr>,
                  peers = Some (\<lambda>k. Inr (Some (\<lambda>grp k'. ([], Some (Error ''server returned: 500''))), True)),
                  loader = Map.empty \<rparr>) \<and>
   map_outcome fst (Group_Get \<lparr> name = ''scores'', getter = db_getter,
               mainCache = \<lparr> lru = None, cacheBytes = 2048 \<rparr>,
               peers = Some (\<lambda>k. Inr (Some (\<lambda>grp k'. ([], Some (Error ''server returned: 500''))), True)),
               loader = Map.empty \<rparr> ''Tom'')
     = Returns (ByteView ''630'', None)"
proof -
  define g where "g = \<lparr> name = ''scores'', getter = db_getter,
               mainCache = \<lparr> lru = None, cacheBytes = 2048 \<rparr>,
               peers = Some (\<lambda>k. Inr (Some (\<lambda>grp k'. ([], Some (Error ''server returned: 500''))), True)),
               loader = Map.empty \<rparr>"
  have miss: "\<And>k. fst (cache_get (mainCache g) k) = None" by (simp add: g_def cache_get_def)
  have idle: "\<And>k. loader g k = None" by (simp add: g_def)
  have route: "\<And>k. Group.peers g = None \<or>
                (\<exists>picker peer. Group.peers g = Some picker \<and> picker k = Inr (peer, False)) \<or>
                (\<exists>picker get pb pe. Group.peers g = Some picker \<and>
                   picker k = Inr (Some get, True) \<and> get (name g) k = (pb, Some pe))"
    by (simp add: g_def)
  have ok: "cache_ok (mainCache g) \<and> 0 \<le> cacheBytes (mainCache g)"
    by (simp add: g_def cache_ok_def)
  have k1: "''kkk'' \<noteq> []" and k2: "''Tom'' \<noteq> []" by simp_all
  note t1 = peer_error_masked_by_loader [OF k1 miss idle route]
  note t2 = peer_error_masked_by_loader [OF k2 miss idle route]
  have g1: "getter g ''kkk'' = ([], Some (Error ''kkk not exist''))"
    by (simp add: g_def db_getter_def db_def)
  have g2: "getter g ''Tom'' = (''630'', None)"
    by (simp add: g_def db_getter_def db_def)
  have 1: "Group_Get g ''kkk'' = Returns ((ByteView [], Some (Error ''kkk not exist'')), g)"
    using t1 g1 by simp
  have "\<exists>v g'. Group_Get g ''Tom'' = Returns ((v, snd (getter g ''Tom'')), g')"
    using t2 ok by blast
  then obtain v g' where r: "Group_Get g ''Tom'' = Returns ((v, None), g')"
    unfolding g2 by auto
  have "v = ByteView ''630''"
    using t2 [THEN conjunct1] r unfolding g2 by (auto simp: cloneBytes_def split: option.splits)
  with r have 2: "map_outcome fst (Group_Get g ''Tom'') = Returns (ByteView ''630'', None)"
    by simp
  show ?thesis unfolding g_def [symmetric] using 1 2 by simp
qed

text \<open>
  Claim C6.  Take a read \<^verbatim>\<open>Group.Get(key)\<close> of a non-empty key that misses the cache, with no
  load of the key in flight.  If it is routed to a remote peer whose fetch succeeds, it
  returns the peer's bytes and the group is exactly as before: nothing is inserted into the
  local cache.  If it is served by the backing loader and the loader succeeds, the group's
  cache when \<^verbatim>\<open>Get\<close> returns is the result of \<^verbatim>\<open>add(key, value)\<close> on the cache before; and
  on a cache the program can reach whose capacity is 0 or admits the entry's size, a lookup
  of the key in that cache finds the loaded value.
\<close>

theorem remote_hit_leaves_cache_local_load_fills_it:
  assumes key: "key \<noteq> []" and miss: "fst (cache_get (mainCache g) key) = None"
    and idle: "loader g key = None"
  shows "(\<forall>picker get pb. Group.peers g = Some picker \<and> picker key = Inr (Some get, True) \<and>
            get (name g) key = (pb, None) \<longrightarrow>
            Group_Get g key = Returns ((ByteView pb, None), g)) \<and>
         (\<forall>lb. (Group.peers g = None \<or>
                (\<exists>picker peer. Group.peers g = Some picker \<and> picker key = Inr (peer, False)) \<or>
                (\<exists>picker get pb pe. Group.peers g = Some picker \<and>
                   picker key = Inr (Some get, True) \<and> get (name g) key = (pb, Some pe))) \<and>
               getter g key = (lb, None) \<longrightarrow>
            Group_Get g key =
              (case cache_add (mainCache g) key (ByteView (cloneBytes lb)) of
                 None \<Rightarrow> Diverges
               | Some c \<Rightarrow> Returns ((ByteView (cloneBytes lb), None), g\<lparr> mainCache := c \<rparr>)) \<and>
            (cache_ok (mainCache g) \<and>
             (cacheBytes (mainCache g) = 0 \<or>
              (0 \<le> cacheBytes (mainCache g) \<and>
               int (length key) + int (length lb) \<le> cacheBytes (mainCache g))) \<longrightarrow>
               (\<exists>c. cache_add (mainCache g) key (ByteView (cloneBytes lb)) = Some c \<and>
                    fst (cache_get c key) = Some (ByteView (cloneBytes lb)))))"
proof (intro conjI allI impI)
  fix picker get pb
  assume "Group.peers g = Some picker \<and> picker key = Inr (Some get, True) \<and>
          get (name g) key = (pb, None)"
  then have "load g key = Returns ((ByteView pb, None), g)"
    using load_remote [OF idle] by blast
  then show "Group_Get g key = Returns ((ByteView pb, None), g)"
    using Group_Get_miss [OF key miss] by simp
next
  fix lb
  assume h: "(Group.peers g = None \<or>
                (\<exists>picker peer. Group.peers g = Some picker \<and> picker key = Inr (peer, False)) \<or>
                (\<exists>picker get pb pe. Group.peers g = Some picker \<and>
                   picker key = Inr (Some get, True) \<and> get (name g) key = (pb, Some pe))) \<and>
               getter g key = (lb, None)"
  have fn: "load_fn key (ByteView [], g) =
              (case getLocally g key of
                 Returns (r, g') \<Rightarrow> Returns (r, (ByteView [], g'))
               | Panics p \<Rightarrow> Panics p
               | Diverges \<Rightarrow> Diverges)"
    using h load_fn_no_picker load_fn_not_found load_fn_peer_fails by blast
  have "Group_Get g key = getLocally g key"
    using Group_Get_miss [OF key miss] load_locally [OF idle fn] by simp
  then show "Group_Get g key =
              (case cache_add (mainCache g) key (ByteView (cloneBytes lb)) of
                 None \<Rightarrow> Diverges
               | Some c \<Rightarrow> Returns ((ByteView (cloneBytes lb), None), g\<lparr> mainCache := c \<rparr>))"
    using h by (simp add: getLocally_eq)
next
  fix lb :: string
  assume "cache_ok (mainCache g) \<and>
             (cacheBytes (mainCache g) = 0 \<or>
              (0 \<le> cacheBytes (mainCache g) \<and>
               int (length key) + int (length lb) \<le> cacheBytes (mainCache g)))"
  then show "\<exists>c. cache_add (mainCache g) key (ByteView (cloneBytes lb)) = Some c \<and>
                    fst (cache_get c key) = Some (ByteView (cloneBytes lb))"
    by (intro cache_add_resident) (simp_all add: Len_def cloneBytes_def)
qed

text \<open>
  The theorem of C6 at the group \<open>scores\<close>: with a peer that answers \<open>630\<close> the group is
  unchanged; with no picker the loader's \<open>630\<close> is added to the cache and found there.
\<close>

theorem remote_hit_leaves_cache_local_load_fills_it_witness:
  "Group_Get \<lparr> name = ''scores'', getter = db_getter,
               mainCache = \<lparr> lru = None, cacheBytes = 2048 \<rparr>,
               peers = Some (\<lambda>k. Inr (Some (\<lambda>grp k'. (''630'', None)), True)),
               loader = Map.empty \<rparr> ''Tom''
     = Returns ((ByteView ''630'', None),
                \<lparr> name = ''scores'', getter = db_getter,
                  mainCache = \<lparr> lru = None, cacheBytes = 2048 \<rparr>,
                  peers = Some (\<lambda>k. Inr (Some (\<lambda>grp k'. (''630'', None)), True)),
                  loader = Map.empty \<rparr>) \<and>
   cache_add \<lparr> lru = None, cacheBytes = 2048 \<rparr> ''Tom'' (ByteView ''630'') \<noteq> None \<and>
   Group_Get \<lparr> name = ''scores'', getter = db_getter,
               mainCache = \<lparr> lru = None, cacheBytes = 2048 \<rparr>,
               peers = None, loader = Map.empty \<rparr> ''Tom''
     = Returns ((ByteView ''630'', None),
                \<lparr> name = ''scores'', getter = db_getter,
                  mainCache = the (cache_add \<lparr> lru = None, cacheBytes = 2048 \<rparr> ''Tom'' (ByteView ''630'')),
                  peers = None, loader = Map.empty \<rparr>) \<and>
   fst (cache_get (the (cache_add \<lparr> lru = None, cacheBytes = 2048 \<rparr> ''Tom'' (ByteView ''630''))) ''Tom'')
     = Some (ByteView ''630'')"
proof -
  define g where "g = \<lparr> name = ''scores'', getter = db_getter,
               mainCache = \<lparr> lru = None, cacheBytes = 2048 \<rparr>,
               peers = Some (\<lambda>k. Inr (Some (\<lambda>grp (k'::string). (''630'', None :: error option)), True)),
               loader = Map.empty \<rparr>"
  define h where "h = \<lparr> name = ''scores'', getter = db_getter,
               mainCache = \<lparr> lru = None, cacheBytes = 2048 \<rparr>,
               peers = None, loader = Map.empty \<rparr>"
  have k: "''Tom'' \<noteq> []" by simp
  have mg: "fst (cache_get (mainCache g) ''Tom'') = None" by (simp add: g_def cache_get_def)
  have mh: "fst (cache_get (mainCache h) ''Tom'') = None" by (simp add: h_def cache_get_def)
  have ig: "loader g ''Tom'' = None" by (simp add: g_def)
  have ih: "loader h ''Tom'' = None" by (simp add: h_def)
  note tg = remote_hit_leaves_cache_local_load_fills_it [OF k mg ig]
  note th = remote_hit_leaves_cache_local_load_fills_it [OF k mh ih]
  have 1: "Group_Get g ''Tom'' = Returns ((ByteView ''630'', None), g)"
    using tg by (simp add: g_def)
  have gt: "getter h ''Tom'' = (''630'', None)" by (simp add: h_def db_getter_def db_def)
  have mc: "mainCache h = \<lparr> lru = None, cacheBytes = 2048 \<rparr>" by (simp add: h_def)
  have ok: "cache_ok (mainCache h)" by (simp add: mc cache_ok_def)
  have r: "(Group.peers h = None \<or>
                (\<exists>picker peer. Group.peers h = Some picker \<and> picker ''Tom'' = Inr (peer, False)) \<or>
                (\<exists>picker get pb pe. Group.peers h = Some picker \<and>
                   picker ''Tom'' = Inr (Some get, True) \<and> get (name h) ''Tom'' = (pb, Some pe))) \<and>
               getter h ''Tom'' = (''630'', None)"
    using gt by (simp add: h_def)
  note th2 = th [THEN conjunct2, rule_format, OF r]
  have fits: "cache_ok (mainCache h) \<and>
             (cacheBytes (mainCache h) = 0 \<or>
              (0 \<le> cacheBytes (mainCache h) \<and>
               int (length ''Tom'') + int (length ''630'') \<le> cacheBytes (mainCache h)))"
    using ok by (simp add: mc)
  obtain c where c: "cache_add (mainCache h) ''Tom'' (ByteView (cloneBytes ''630'')) = Some c"
    "fst (cache_get c ''Tom'') = Some (ByteView (cloneBytes ''630''))"
    using th2 [THEN conjunct2, rule_format, OF fits] by blast
  have 2: "Group_Get h ''Tom'' = Returns ((ByteView ''630'', None), h\<lparr> mainCache := c \<rparr>)"
    using th2 [THEN conjunct1] c(1) by (simp add: cloneBytes_def)
  have c': "cache_add \<lparr> lru = None, cacheBytes = 2048 \<rparr> ''Tom'' (ByteView ''630'') = Some c"
    using c(1) by (simp add: mc cloneBytes_def)
  have 3: "h\<lparr> mainCache := c \<rparr> = \<lparr> name = ''scores'', getter = db_getter, mainCache = c,
                  peers = None, loader = Map.empty \<rparr>"
    by (simp add: h_def)
  show ?thesis
    unfolding c' option.sel g_def [symmetric] h_def [symmetric]
    using 1 2 3 c(2) by (simp add: cloneBytes_def)
qed

section \<open>Properties of the registry\<close>

lemma NewGroup_Some:
  "NewGroup r nm cb (Some f) =
     Returns (next_group r,
       r\<lparr> group_store := (group_store r)(next_group r \<mapsto>
              \<lparr> name = nm, getter = f, mainCache = \<lparr> lru = None, cacheBytes = cb \<rparr>,
                peers = None, loader = Map.empty \<rparr>),
          groups := (groups r)(nm \<mapsto> next_group r),
          next_group := Suc (next_group r) \<rparr>)"
  by (simp add: NewGroup_def Let_def)

lemma NewGroup_None: "NewGroup r nm cb None = Panics (PanicMessage ''nil Getter'')"
  by (simp add: NewGroup_def)

lemma NewGroup_ok:
  "registry_ok r \<Longrightarrow> NewGroup r nm cb gt = Returns (g, r') \<Longrightarrow> registry_ok r'"
  by (cases gt) (auto simp: NewGroup_Some NewGroup_None registry_ok_def less_Suc_eq split: if_splits)

lemma NewGroup_lookup:
  "NewGroup r nm cb gt = Returns (g, r') \<Longrightarrow>
     GetGroup r' n = (if n = nm then Some g else GetGroup r n)"
  by (cases gt) (auto simp: NewGroup_Some NewGroup_None GetGroup_def)

lemma registry_run_ok:
  "registry_ok r \<Longrightarrow> registry_run r ops = Returns (created, r') \<Longrightarrow> registry_ok r'"
proof (induction r ops arbitrary: created rule: registry_run.induct)
  case (1 r)
  then show ?case by simp
next
  case (2 r nm ops)
  then show ?case by simp
next
  case (3 r nm cb gt ops)
  from "3.prems"(2) obtain g r1 cr where
    n: "NewGroup r nm cb gt = Returns (g, r1)" and
    run: "registry_run r1 ops = Returns (cr, r')"
    by (auto split: outcome.splits)
  have "registry_ok r1" using "3.prems"(1) n by (rule NewGroup_ok)
  then show ?case using "3.IH" [OF n refl _ run] by simp
qed

lemma last_created_Cons:
  "last_created ((n, g) # created) nm =
     (case last_created created nm of Some a \<Rightarrow> Some a | None \<Rightarrow> if n = nm then Some g else None)"
  by (simp add: last_created_def map_add_def split: option.splits)

lemma registry_run_lookup:
  "registry_run r ops = Returns (created, r') \<Longrightarrow>
     GetGroup r' nm = (case last_created created nm of Some a \<Rightarrow> Some a | None \<Rightarrow> GetGroup r nm)"
proof (induction r ops arbitrary: created rule: registry_run.induct)
  case (1 r)
  then show ?case by (simp add: last_created_def)
next
  case (2 r n ops)
  then show ?case by simp
next
  case (3 r n cb gt ops)
  from "3.prems" obtain g r1 cr where
    n: "NewGroup r n cb gt = Returns (g, r1)" and
    run: "registry_run r1 ops = Returns (cr, r')" and
    c: "created = (n, g) # cr"
    by (auto split: outcome.splits)
  have "GetGroup r' nm = (case last_created cr nm of Some a \<Rightarrow> Some a | None \<Rightarrow> GetGroup r1 nm)"
    using "3.IH" [OF n refl run] .
  then show ?case
    by (simp add: c last_created_Cons NewGroup_lookup [OF n] split: option.splits)
qed

lemma registry_ok_empty: "registry_ok empty_registry"
  by (simp add: registry_ok_def empty_registry_def)

text \<open>
  Claim C10.  In every registry that calls of \<^verbatim>\<open>NewGroup\<close> and \<^verbatim>\<open>GetGroup\<close> reach from the
  empty one, \<^verbatim>\<open>GetGroup(n)\<close> returns the group created last under the name \<open>n\<close> (nil if
  there is none).  \<^verbatim>\<open>NewGroup(n, ...)\<close> panics exactly when the loader is nil, whether or not
  \<open>n\<close> is registered.  With a loader it returns a group at a fresh address, which differs
  from whatever \<open>n\<close> was registered to; afterwards \<^verbatim>\<open>GetGroup(n)\<close> returns the new group,
  the other names are registered as before, and after any further calls \<^verbatim>\<open>GetGroup(n)\<close>
  returns the group created last under \<open>n\<close>, the new one if none was created since.
\<close>

theorem NewGroup_replaces_registration:
  "registry_run empty_registry ops = Returns (created, r) \<Longrightarrow>
     GetGroup r nm = last_created created nm \<and>
     ((\<exists>p. NewGroup r nm cb gt = Panics p) \<longleftrightarrow> gt = None) \<and>
     (\<forall>f. gt = Some f \<longrightarrow>
        (\<exists>r'. NewGroup r nm cb gt = Returns (next_group r, r') \<and>
              GetGroup r nm \<noteq> Some (next_group r) \<and>
              GetGroup r' nm = Some (next_group r) \<and>
              (\<forall>n. n \<noteq> nm \<longrightarrow> GetGroup r' n = GetGroup r n) \<and>
              (\<forall>ops' created' r''. registry_run r' ops' = Returns (created', r'') \<longrightarrow>
                 GetGroup r'' nm =
                   (case last_created created' nm of Some a \<Rightarrow> Some a
                    | None \<Rightarrow> Some (next_group r)))))"
proof -
  assume run: "registry_run empty_registry ops = Returns (created, r)"
  have ok: "registry_ok r" using registry_ok_empty run by (rule registry_run_ok)
  have 1: "GetGroup r nm = last_created created nm"
    using registry_run_lookup [OF run, of nm]
    by (simp add: GetGroup_def empty_registry_def split: option.splits)
  have 2: "(\<exists>p. NewGroup r nm cb gt = Panics p) \<longleftrightarrow> gt = None"
    by (cases gt) (simp_all add: NewGroup_None NewGroup_Some)
  have 3: "\<forall>f. gt = Some f \<longrightarrow>
        (\<exists>r'. NewGroup r nm cb gt = Returns (next_group r, r') \<and>
              GetGroup r nm \<noteq> Some (next_group r) \<and>
              GetGroup r' nm = Some (next_group r) \<and>
              (\<forall>n. n \<noteq> nm \<longrightarrow> GetGroup r' n = GetGroup r n) \<and>
              (\<forall>ops' created' r''. registry_run r' ops' = Returns (created', r'') \<longrightarrow>
                 GetGroup r'' nm =
                   (case last_created created' nm of Some a \<Rightarrow> Some a
                    | None \<Rightarrow> Some (next_group r))))"
  proof (intro allI impI)
    fix f assume gt: "gt = Some f"
    obtain r' where n: "NewGroup r nm cb gt = Returns (next_group r, r')"
      by (simp add: gt NewGroup_Some)
    have old: "GetGroup r nm \<noteq> Some (next_group r)"
      using ok by (auto simp: registry_ok_def GetGroup_def)
    have new: "\<And>n. GetGroup r' n = (if n = nm then Some (next_group r) else GetGroup r n)"
      by (rule NewGroup_lookup [OF n])
    have later: "\<forall>ops' created' r''. registry_run r' ops' = Returns (created', r'') \<longrightarrow>
                 GetGroup r'' nm =
                   (case last_created created' nm of Some a \<Rightarrow> Some a
                    | None \<Rightarrow> Some (next_group r))"
      using registry_run_lookup [of r' _ _ _ nm] by (auto simp: new split: option.splits)
    show "\<exists>r'. NewGroup r nm cb gt = Returns (next_group r, r') \<and>
              GetGroup r nm \<noteq> Some (next_group r) \<and>
              GetGroup r' nm = Some (next_group r) \<and>
              (\<forall>n. n \<noteq> nm \<longrightarrow> GetGroup r' n = GetGroup r n) \<and>
              (\<forall>ops' created' r''. registry_run r' ops' = Returns (created', r'') \<longrightarrow>
                 GetGroup r'' nm =
                   (case last_created created' nm of Some a \<Rightarrow> Some a
                    | None \<Rightarrow> Some (next_group r)))"
      using n old new later by auto
  qed
  show ?thesis using 1 2 3 by blast
qed

text \<open>
  The theorem of C10 at a concrete run: \<open>scores\<close> is created (group 0) and looked up, then
  created again (group 1); lookups of \<open>scores\<close> then return group 1, also after another
  group is created under a different name.
\<close>

theorem NewGroup_replaces_registration_witness:
  "(case registry_run empty_registry
           [OpNewGroup ''scores'' 2048 (Some db_getter), OpGetGroup ''scores''] of
      Returns (created, r) \<Rightarrow>
        created = [(''scores'', 0)] \<and> GetGroup r ''scores'' = Some 0 \<and>
        (case NewGroup r ''scores'' 1024 (Some db_getter) of
           Returns (g, r') \<Rightarrow>
             g = 1 \<and> GetGroup r' ''scores'' = Some 1 \<and>
             (case registry_run r' [OpGetGroup ''scores'', OpNewGroup ''other'' 0 (Some db_getter)] of
                Returns (created', r'') \<Rightarrow> GetGroup r'' ''scores'' = Some 1
              | Panics p \<Rightarrow> False
              | Diverges \<Rightarrow> False)
         | Panics p \<Rightarrow> False
         | Diverges \<Rightarrow> False)
    | Panics p \<Rightarrow> False
    | Diverges \<Rightarrow> False)"
proof -
  obtain r where run: "registry_run empty_registry
      [OpNewGroup ''scores'' 2048 (Some db_getter), OpGetGroup ''scores''] = Returns ([(''scores'', 0)], r)"
    by (simp add: NewGroup_Some empty_registry_def)
  note t = NewGroup_replaces_registration [OF run, of "''scores''" 1024 "Some db_getter"]
  have ng: "next_group r = 1" using run by (auto simp: NewGroup_Some empty_registry_def)
  have 1: "GetGroup r ''scores'' = Some 0" using t by (simp add: last_created_def)
  note t3 = t [THEN conjunct2, THEN conjunct2, rule_format, OF refl]
  from t3 obtain r' where r': "NewGroup r ''scores'' 1024 (Some db_getter) = Returns (next_group r, r')"
    "GetGroup r' ''scores'' = Some (next_group r)"
    "\<forall>ops' created' r''. registry_run r' ops' = Returns (created', r'') \<longrightarrow>
       GetGroup r'' ''scores'' =
         (case last_created created' ''scores'' of Some a \<Rightarrow> Some a
          | None \<Rightarrow> Some (next_group r))"
    by blast
  obtain r'' where run2: "registry_run r' [OpGetGroup ''scores'', OpNewGroup ''other'' 0 (Some db_getter)]
      = Returns ([(''other'', next_group r')], r'')"
    by (simp add: NewGroup_Some)
  have "GetGroup r'' ''scores'' = Some 1"
    using r'(3) [rule_format, OF run2] by (simp add: last_created_def ng)
  then show ?thesis using run 1 r'(1,2) run2 by (simp add: ng)
qed

section \<open>Single flight: every reachable state of the interleaving satisfies the invariant\<close>

lemma leads_simps [simp]:
  "leads (Entering k) c = False"
  "leads (Waiting c') c = False"
  "leads (Calling k c') c = (c' = c)"
  "leads (Written k c') c = (c' = c)"
  "leads (Released k c') c = (c' = c)"
  "leads (Returned c' led r) c = (led \<and> c' = c)"
  by (simp_all add: leads_def)

lemma inv_pc: "flight_inv res s \<Longrightarrow> pc_ok res s t"
  by (simp add: flight_inv_def)

lemma inv_uniq: "flight_inv res s \<Longrightarrow> leads (pcs s t) c \<Longrightarrow> leads (pcs s t') c \<Longrightarrow> t = t'"
  unfolding flight_inv_def by blast

lemma inv_fm:
  "flight_inv res s \<Longrightarrow> fm s k = Some c \<Longrightarrow>
   c < fnext s \<and> (\<exists>l. pcs s l = Calling k c \<or> pcs s l = Written k c \<or> pcs s l = Released k c)"
  unfolding flight_inv_def by blast

lemma inv_log:
  "flight_inv res s \<Longrightarrow> (l, c) \<in> set (fn_log s) \<Longrightarrow>
   c < fnext s \<and> results (fcalls s c) = res l \<and> leads (pcs s l) c"
  unfolding flight_inv_def by blast

lemma inv_wg: "flight_inv res s \<Longrightarrow> c < fnext s \<Longrightarrow> wg (fcalls s c) = 0 \<Longrightarrow> c \<in> snd ` set (fn_log s)"
  unfolding flight_inv_def by blast

lemma inv_distinct: "flight_inv res s \<Longrightarrow> distinct (map snd (fn_log s)) \<and> distinct (map fst (fn_log s))"
  unfolding flight_inv_def by blast

lemma flight_invI:
  assumes "\<And>t. pc_ok res s t"
    and "\<And>t t' c. leads (pcs s t) c \<Longrightarrow> leads (pcs s t') c \<Longrightarrow> t = t'"
    and "\<And>k c. fm s k = Some c \<Longrightarrow> c < fnext s \<and>
           (\<exists>l. pcs s l = Calling k c \<or> pcs s l = Written k c \<or> pcs s l = Released k c)"
    and "\<And>l c. (l, c) \<in> set (fn_log s) \<Longrightarrow>
           c < fnext s \<and> results (fcalls s c) = res l \<and> leads (pcs s l) c"
    and "\<And>c. c < fnext s \<Longrightarrow> wg (fcalls s c) = 0 \<Longrightarrow> c \<in> snd ` set (fn_log s)"
    and "distinct (map snd (fn_log s))" and "distinct (map fst (fn_log s))"
  shows "flight_inv res s"
  unfolding flight_inv_def using assms by blast

lemma flight_inv_init: "flight_inv res (flight_init nil key_of)"
  by (rule flight_invI) (simp_all add: flight_init_def pc_ok_def)

text \<open>A goroutine other than the one that moves keeps its place.\<close>

lemma pc_ok_Entering: "pcs s t = Entering k \<Longrightarrow> pc_ok res s t \<longleftrightarrow> t \<notin> fst ` set (fn_log s)"
  by (simp add: pc_ok_def)

lemma step_join:
  assumes inv: "flight_inv res s" and pc: "pcs s t = Entering k" and m: "fm s k = Some c"
  shows "flight_inv res (s\<lparr> pcs := (pcs s)(t := Waiting c) \<rparr>)" (is "flight_inv res ?s'")
proof (rule flight_invI)
  fix u
  show "pc_ok res ?s' u"
    using inv_pc [OF inv, of u] inv_pc [OF inv, of t] inv_fm [OF inv m] pc
    by (auto simp: pc_ok_def split: pc.splits)
next
  fix u u' d
  assume "leads (pcs ?s' u) d" "leads (pcs ?s' u') d"
  then show "u = u'" using inv_uniq [OF inv, of u d u'] by (auto split: if_splits)
next
  fix k' d
  assume "fm ?s' k' = Some d"
  then have old: "d < fnext s" "\<exists>l. pcs s l = Calling k' d \<or> pcs s l = Written k' d \<or> pcs s l = Released k' d"
    using inv_fm [OF inv, of k' d] by auto
  then obtain l where l: "pcs s l = Calling k' d \<or> pcs s l = Written k' d \<or> pcs s l = Released k' d"
    by blast
  then have "l \<noteq> t" using pc by auto
  then have "pcs ?s' l = Calling k' d \<or> pcs ?s' l = Written k' d \<or> pcs ?s' l = Released k' d"
    using l by simp
  then show "d < fnext ?s' \<and> (\<exists>l. pcs ?s' l = Calling k' d \<or> pcs ?s' l = Written k' d \<or>
      pcs ?s' l = Released k' d)"
    using old(1) by (simp del: fun_upd_apply) blast
next
  fix l d
  assume "(l, d) \<in> set (fn_log ?s')"
  then show "d < fnext ?s' \<and> results (fcalls ?s' d) = res l \<and> leads (pcs ?s' l) d"
    using inv_log [OF inv, of l d] pc by auto
next
  fix d
  show "d < fnext ?s' \<Longrightarrow> wg (fcalls ?s' d) = 0 \<Longrightarrow> d \<in> snd ` set (fn_log ?s')"
    using inv_wg [OF inv, of d] by simp
next
  show "distinct (map snd (fn_log ?s'))" "distinct (map fst (fn_log ?s'))"
    using inv_distinct [OF inv] by simp_all
qed

lemma step_wake:
  assumes inv: "flight_inv res s" and pc: "pcs s t = Waiting c" and z: "wg (fcalls s c) = 0"
  shows "flight_inv res (s\<lparr> pcs := (pcs s)(t := Returned c False (val (fcalls s c), err (fcalls s c))) \<rparr>)"
    (is "flight_inv res ?s'")
proof (rule flight_invI)
  fix u
  show "pc_ok res ?s' u"
    using inv_pc [OF inv, of u] inv_pc [OF inv, of t] pc z
    by (auto simp: pc_ok_def results_def split: pc.splits)
next
  fix u u' d
  assume "leads (pcs ?s' u) d" "leads (pcs ?s' u') d"
  then show "u = u'" using inv_uniq [OF inv, of u d u'] by (auto split: if_splits)
next
  fix k' d
  assume "fm ?s' k' = Some d"
  then have old: "d < fnext s" "\<exists>l. pcs s l = Calling k' d \<or> pcs s l = Written k' d \<or> pcs s l = Released k' d"
    using inv_fm [OF inv, of k' d] by auto
  then obtain l where l: "pcs s l = Calling k' d \<or> pcs s l = Written k' d \<or> pcs s l = Released k' d"
    by blast
  then have "l \<noteq> t" using pc by auto
  then have "pcs ?s' l = Calling k' d \<or> pcs ?s' l = Written k' d \<or> pcs ?s' l = Released k' d"
    using l by simp
  then show "d < fnext ?s' \<and> (\<exists>l. pcs ?s' l = Calling k' d \<or> pcs ?s' l = Written k' d \<or>
      pcs ?s' l = Released k' d)"
    using old(1) by (simp del: fun_upd_apply) blast
next
  fix l d
  assume "(l, d) \<in> set (fn_log ?s')"
  then show "d < fnext ?s' \<and> results (fcalls ?s' d) = res l \<and> leads (pcs ?s' l) d"
    using inv_log [OF inv, of l d] pc by auto
next
  fix d
  show "d < fnext ?s' \<Longrightarrow> wg (fcalls ?s' d) = 0 \<Longrightarrow> d \<in> snd ` set (fn_log ?s')"
    using inv_wg [OF inv, of d] by simp
next
  show "distinct (map snd (fn_log ?s'))" "distinct (map fst (fn_log ?s'))"
    using inv_distinct [OF inv] by simp_all
qed

lemma pc_bound:
  assumes "pc_ok res s u"
  shows "\<And>d. leads (pcs s u) d \<Longrightarrow> d < fnext s"
  using assms by (auto simp: pc_ok_def leads_def split: pc.splits)

lemma step_lead:
  assumes inv: "flight_inv res s" and pc: "pcs s t = Entering k" and m: "fm s k = None"
  shows "flight_inv res
           (s\<lparr> fcalls := (fcalls s)(fnext s := \<lparr> wg = 1, val = nil, err = None \<rparr>),
               fm := (fm s)(k \<mapsto> fnext s),
               fnext := Suc (fnext s),
               pcs := (pcs s)(t := Calling k (fnext s)) \<rparr>)"
    (is "flight_inv res ?s'")
proof (rule flight_invI)
  fix u
  have lg: "\<And>l d. (l, d) \<in> set (fn_log s) \<Longrightarrow> d < fnext s" using inv_log [OF inv] by blast
  have fresh: "fnext s \<notin> snd ` set (fn_log s)" using lg by force
  show "pc_ok res ?s' u"
  proof (cases "u = t")
    case True
    then show ?thesis using inv_pc [OF inv, of t] pc fresh by (simp add: pc_ok_def)
  next
    case False
    then show ?thesis using inv_pc [OF inv, of u] m
      by (auto simp: pc_ok_def results_def split: pc.splits)
  qed
next
  fix u u' d
  assume l: "leads (pcs ?s' u) d" "leads (pcs ?s' u') d"
  show "u = u'"
  proof (cases "d = fnext s")
    case True
    have "\<And>v. v \<noteq> t \<Longrightarrow> \<not> leads (pcs s v) (fnext s)"
      using pc_bound [OF inv_pc [OF inv]] by blast
    then show ?thesis using l True by (auto split: if_splits)
  next
    case False
    then show ?thesis using l inv_uniq [OF inv, of u d u'] by (auto split: if_splits)
  qed
next
  fix k' d
  assume h: "fm ?s' k' = Some d"
  show "d < fnext ?s' \<and> (\<exists>l. pcs ?s' l = Calling k' d \<or> pcs ?s' l = Written k' d \<or>
      pcs ?s' l = Released k' d)"
  proof (cases "k' = k")
    case True
    then have "d = fnext s" using h by simp
    then have "pcs ?s' t = Calling k' d" using True by simp
    then show ?thesis using \<open>d = fnext s\<close> by (simp del: fun_upd_apply) blast
  next
    case False
    then have "fm s k' = Some d" using h by simp
    then have old: "d < fnext s"
      "\<exists>l. pcs s l = Calling k' d \<or> pcs s l = Written k' d \<or> pcs s l = Released k' d"
      using inv_fm [OF inv, of k' d] by auto
    then obtain l where l: "pcs s l = Calling k' d \<or> pcs s l = Written k' d \<or> pcs s l = Released k' d"
      by blast
    then have "l \<noteq> t" using pc by auto
    then have "pcs ?s' l = Calling k' d \<or> pcs ?s' l = Written k' d \<or> pcs ?s' l = Released k' d"
      using l by simp
    then show ?thesis using old(1) by (simp del: fun_upd_apply) blast
  qed
next
  fix l d
  assume "(l, d) \<in> set (fn_log ?s')"
  then have in_log: "(l, d) \<in> set (fn_log s)" by simp
  have "l \<noteq> t" using in_log inv_pc [OF inv, of t] pc by (force simp: pc_ok_def)
  moreover have "d \<noteq> fnext s" using inv_log [OF inv in_log] by simp
  ultimately show "d < fnext ?s' \<and> results (fcalls ?s' d) = res l \<and> leads (pcs ?s' l) d"
    using inv_log [OF inv in_log] by simp
next
  fix d
  assume "d < fnext ?s'" "wg (fcalls ?s' d) = 0"
  then have "d < fnext s \<and> wg (fcalls s d) = 0" by (cases "d = fnext s") auto
  then show "d \<in> snd ` set (fn_log ?s')" using inv_wg [OF inv, of d] by simp
next
  show "distinct (map snd (fn_log ?s'))" "distinct (map fst (fn_log ?s'))"
    using inv_distinct [OF inv] by simp_all
qed

lemma step_call:
  assumes inv: "flight_inv res s" and pc: "pcs s t = Calling k c"
  shows "flight_inv res
           (s\<lparr> fcalls := (fcalls s)(c := (fcalls s c)\<lparr> val := fst (res t), err := snd (res t) \<rparr>),
               fn_log := fn_log s @ [(t, c)],
               pcs := (pcs s)(t := Written k c) \<rparr>)"
    (is "flight_inv res ?s'")
proof -
  have me: "c < fnext s" "fm s k = Some c" "wg (fcalls s c) = 1"
    "c \<notin> snd ` set (fn_log s)" "t \<notin> fst ` set (fn_log s)"
    using inv_pc [OF inv, of t] pc by (simp_all add: pc_ok_def)
  have only: "\<And>u. leads (pcs s u) c \<Longrightarrow> u = t"
    using inv_uniq [OF inv, of _ c t] pc by simp
  show ?thesis
  proof (rule flight_invI)
    fix u
    show "pc_ok res ?s' u"
    proof (cases "u = t")
      case True
      then show ?thesis using me by (simp add: pc_ok_def)
    next
      case False
      have nl: "\<not> leads (pcs s u) c" using only False by blast
      show ?thesis
      proof (cases "pcs s u")
        case (Entering k')
        then show ?thesis using inv_pc [OF inv, of u] False by (auto simp: pc_ok_def)
      next
        case (Waiting d)
        then show ?thesis using inv_pc [OF inv, of u] False by (auto simp: pc_ok_def)
      next
        case (Calling k' d)
        then show ?thesis using inv_pc [OF inv, of u] False nl by (auto simp: pc_ok_def)
      next
        case (Written k' d)
        then show ?thesis using inv_pc [OF inv, of u] False nl by (auto simp: pc_ok_def)
      next
        case (Released k' d)
        then show ?thesis using inv_pc [OF inv, of u] False nl by (auto simp: pc_ok_def)
      next
        case (Returned d led r)
        then have "wg (fcalls s d) = 0" using inv_pc [OF inv, of u] by (simp add: pc_ok_def)
        then have "d \<noteq> c" using me(3) by auto
        then show ?thesis using Returned inv_pc [OF inv, of u] False
          by (auto simp: pc_ok_def results_def)
      qed
    qed
  next
    fix u u' d
    assume "leads (pcs ?s' u) d" "leads (pcs ?s' u') d"
    then have "leads (pcs s u) d" "leads (pcs s u') d" using pc by (auto split: if_splits)
    then show "u = u'" by (rule inv_uniq [OF inv])
  next
    fix k' d
    assume "fm ?s' k' = Some d"
    then have old: "d < fnext s"
      "\<exists>l. pcs s l = Calling k' d \<or> pcs s l = Written k' d \<or> pcs s l = Released k' d"
      using inv_fm [OF inv, of k' d] by auto
    then obtain l where l: "pcs s l = Calling k' d \<or> pcs s l = Written k' d \<or> pcs s l = Released k' d"
      by blast
    have "pcs ?s' l = Calling k' d \<or> pcs ?s' l = Written k' d \<or> pcs ?s' l = Released k' d"
      using l pc by (cases "l = t") auto
    then show "d < fnext ?s' \<and> (\<exists>l. pcs ?s' l = Calling k' d \<or> pcs ?s' l = Written k' d \<or>
        pcs ?s' l = Released k' d)"
      using old(1) by (simp del: fun_upd_apply) blast
  next
    fix l d
    assume "(l, d) \<in> set (fn_log ?s')"
    then consider "l = t" "d = c" | "(l, d) \<in> set (fn_log s)" by auto
    then show "d < fnext ?s' \<and> results (fcalls ?s' d) = res l \<and> leads (pcs ?s' l) d"
    proof cases
      case 1
      then show ?thesis using me(1) by (simp add: results_def)
    next
      case 2
      then have "d \<noteq> c" "l \<noteq> t" using me(4,5) by force+
      then show ?thesis using inv_log [OF inv 2] by simp
    qed
  next
    fix d
    assume "d < fnext ?s'" "wg (fcalls ?s' d) = 0"
    then have "d < fnext s \<and> wg (fcalls s d) = 0" by (cases "d = c") auto
    then show "d \<in> snd ` set (fn_log ?s')" using inv_wg [OF inv, of d] by auto
  next
    show "distinct (map snd (fn_log ?s'))" "distinct (map fst (fn_log ?s'))"
      using inv_distinct [OF inv] me(4,5) by simp_all
  qed
qed

lemma step_done:
  assumes inv: "flight_inv res s" and pc: "pcs s t = Written k c"
  shows "flight_inv res
           (s\<lparr> fcalls := (fcalls s)(c := (fcalls s c)\<lparr> wg := wg (fcalls s c) - 1 \<rparr>),
               pcs := (pcs s)(t := Released k c) \<rparr>)"
    (is "flight_inv res ?s'")
proof -
  have me: "c < fnext s" "fm s k = Some c" "wg (fcalls s c) = 1" "(t, c) \<in> set (fn_log s)"
    using inv_pc [OF inv, of t] pc by (simp_all add: pc_ok_def)
  have only: "\<And>u. leads (pcs s u) c \<Longrightarrow> u = t"
    using inv_uniq [OF inv, of _ c t] pc by simp
  show ?thesis
  proof (rule flight_invI)
    fix u
    show "pc_ok res ?s' u"
    proof (cases "u = t")
      case True
      then show ?thesis using me by (simp add: pc_ok_def)
    next
      case False
      have nl: "\<not> leads (pcs s u) c" using only False by blast
      show ?thesis
      proof (cases "pcs s u")
        case (Entering k')
        then show ?thesis using inv_pc [OF inv, of u] False by (auto simp: pc_ok_def)
      next
        case (Waiting d)
        then show ?thesis using inv_pc [OF inv, of u] False by (auto simp: pc_ok_def)
      next
        case (Calling k' d)
        then show ?thesis using inv_pc [OF inv, of u] False nl by (auto simp: pc_ok_def)
      next
        case (Written k' d)
        then show ?thesis using inv_pc [OF inv, of u] False nl by (auto simp: pc_ok_def)
      next
        case (Released k' d)
        then show ?thesis using inv_pc [OF inv, of u] False nl by (auto simp: pc_ok_def)
      next
        case (Returned d led r)
        then have "wg (fcalls s d) = 0" using inv_pc [OF inv, of u] by (simp add: pc_ok_def)
        then have "d \<noteq> c" using me(3) by auto
        then show ?thesis using Returned inv_pc [OF inv, of u] False
          by (auto simp: pc_ok_def results_def)
      qed
    qed
  next
    fix u u' d
    assume "leads (pcs ?s' u) d" "leads (pcs ?s' u') d"
    then have "leads (pcs s u) d" "leads (pcs s u') d" using pc by (auto split: if_splits)
    then show "u = u'" by (rule inv_uniq [OF inv])
  next
    fix k' d
    assume "fm ?s' k' = Some d"
    then have old: "d < fnext s"
      "\<exists>l. pcs s l = Calling k' d \<or> pcs s l = Written k' d \<or> pcs s l = Released k' d"
      using inv_fm [OF inv, of k' d] by auto
    then obtain l where l: "pcs s l = Calling k' d \<or> pcs s l = Written k' d \<or> pcs s l = Released k' d"
      by blast
    have "pcs ?s' l = Calling k' d \<or> pcs ?s' l = Written k' d \<or> pcs ?s' l = Released k' d"
      using l pc by (cases "l = t") auto
    then show "d < fnext ?s' \<and> (\<exists>l. pcs ?s' l = Calling k' d \<or> pcs ?s' l = Written k' d \<or>
        pcs ?s' l = Released k' d)"
      using old(1) by (simp del: fun_upd_apply) blast
  next
    fix l d
    assume h: "(l, d) \<in> set (fn_log ?s')"
    then have in_log: "(l, d) \<in> set (fn_log s)" by simp
    have "leads (pcs ?s' l) d" using inv_log [OF inv in_log] pc by (cases "l = t") auto
    moreover have "results (fcalls ?s' d) = results (fcalls s d)" by (simp add: results_def)
    ultimately show "d < fnext ?s' \<and> results (fcalls ?s' d) = res l \<and> leads (pcs ?s' l) d"
      using inv_log [OF inv in_log] by (simp del: fun_upd_apply)
  next
    fix d
    assume "d < fnext ?s'" "wg (fcalls ?s' d) = 0"
    then show "d \<in> snd ` set (fn_log ?s')"
      using inv_wg [OF inv, of d] me(4) by (cases "d = c") force+
  next
    show "distinct (map snd (fn_log ?s'))" "distinct (map fst (fn_log ?s'))"
      using inv_distinct [OF inv] by simp_all
  qed
qed

lemma step_delete:
  assumes inv: "flight_inv res s" and pc: "pcs s t = Released k c"
  shows "flight_inv res
           (s\<lparr> fm := (fm s)(k := None),
               pcs := (pcs s)(t := Returned c True (val (fcalls s c), err (fcalls s c))) \<rparr>)"
    (is "flight_inv res ?s'")
proof -
  have me: "c < fnext s" "fm s k = Some c" "wg (fcalls s c) = 0" "(t, c) \<in> set (fn_log s)"
    using inv_pc [OF inv, of t] pc by (simp_all add: pc_ok_def)
  have only: "\<And>u. leads (pcs s u) c \<Longrightarrow> u = t"
    using inv_uniq [OF inv, of _ c t] pc by simp
  have key: "\<And>k'. fm s k' = Some c \<Longrightarrow> k' = k"
  proof -
    fix k' assume "fm s k' = Some c"
    then obtain l where l: "pcs s l = Calling k' c \<or> pcs s l = Written k' c \<or> pcs s l = Released k' c"
      using inv_fm [OF inv, of k' c] by blast
    then have "l = t" using only [of l] by auto
    then show "k' = k" using l pc by auto
  qed
  have other: "\<And>u k' d. u \<noteq> t \<Longrightarrow> leads (pcs s u) d \<Longrightarrow> fm s k' = Some d \<Longrightarrow> k' \<noteq> k"
  proof
    fix u k' d assume u: "u \<noteq> t" "leads (pcs s u) d" "fm s k' = Some d" "k' = k"
    then have "d = c" using me(2) by simp
    then show False using only [of u] u(1,2) by simp
  qed
  show ?thesis
  proof (rule flight_invI)
    fix u
    show "pc_ok res ?s' u"
    proof (cases "u = t")
      case True
      have "\<forall>k'. ((fm s)(k := None)) k' \<noteq> Some c"
      proof
        fix k'
        show "((fm s)(k := None)) k' \<noteq> Some c"
          using key [of k'] by (cases "k' = k") auto
      qed
      then show ?thesis using me True by (simp add: pc_ok_def results_def)
    next
      case False
      show ?thesis
      proof (cases "pcs s u")
        case (Entering k')
        then show ?thesis using inv_pc [OF inv, of u] False by (auto simp: pc_ok_def)
      next
        case (Waiting d)
        then show ?thesis using inv_pc [OF inv, of u] False by (auto simp: pc_ok_def)
      next
        case (Calling k' d)
        then have "fm s k' = Some d" using inv_pc [OF inv, of u] by (simp add: pc_ok_def)
        then have "k' \<noteq> k" using other [OF False, of d k'] Calling by simp
        then show ?thesis using Calling inv_pc [OF inv, of u] False by (auto simp: pc_ok_def)
      next
        case (Written k' d)
        then have "fm s k' = Some d" using inv_pc [OF inv, of u] by (simp add: pc_ok_def)
        then have "k' \<noteq> k" using other [OF False, of d k'] Written by simp
        then show ?thesis using Written inv_pc [OF inv, of u] False by (auto simp: pc_ok_def)
      next
        case (Released k' d)
        then have "fm s k' = Some d" using inv_pc [OF inv, of u] by (simp add: pc_ok_def)
        then have "k' \<noteq> k" using other [OF False, of d k'] Released by simp
        then show ?thesis using Released inv_pc [OF inv, of u] False by (auto simp: pc_ok_def)
      next
        case (Returned d led r)
        then show ?thesis using inv_pc [OF inv, of u] False
          by (auto simp: pc_ok_def results_def)
      qed
    qed
  next
    fix u u' d
    assume "leads (pcs ?s' u) d" "leads (pcs ?s' u') d"
    then have "leads (pcs s u) d" "leads (pcs s u') d" using pc by (auto split: if_splits)
    then show "u = u'" by (rule inv_uniq [OF inv])
  next
    fix k' d
    assume h: "fm ?s' k' = Some d"
    then have kk: "k' \<noteq> k" and old: "fm s k' = Some d" by (auto split: if_splits)
    then have b: "d < fnext s"
      and "\<exists>l. pcs s l = Calling k' d \<or> pcs s l = Written k' d \<or> pcs s l = Released k' d"
      using inv_fm [OF inv, of k' d] by auto
    then obtain l where l: "pcs s l = Calling k' d \<or> pcs s l = Written k' d \<or> pcs s l = Released k' d"
      by blast
    have "l \<noteq> t" using l pc kk by auto
    then have "pcs ?s' l = Calling k' d \<or> pcs ?s' l = Written k' d \<or> pcs ?s' l = Released k' d"
      using l by simp
    then show "d < fnext ?s' \<and> (\<exists>l. pcs ?s' l = Calling k' d \<or> pcs ?s' l = Written k' d \<or>
        pcs ?s' l = Released k' d)"
      using b by (simp del: fun_upd_apply) blast
  next
    fix l d
    assume h: "(l, d) \<in> set (fn_log ?s')"
    then have in_log: "(l, d) \<in> set (fn_log s)" by simp
    have "leads (pcs ?s' l) d" using inv_log [OF inv in_log] pc by (cases "l = t") auto
    then show "d < fnext ?s' \<and> results (fcalls ?s' d) = res l \<and> leads (pcs ?s' l) d"
      using inv_log [OF inv in_log] by (simp del: fun_upd_apply)
  next
    fix d
    assume "d < fnext ?s'" "wg (fcalls ?s' d) = 0"
    then show "d \<in> snd ` set (fn_log ?s')" using inv_wg [OF inv, of d] by simp
  next
    show "distinct (map snd (fn_log ?s'))" "distinct (map fst (fn_log ?s'))"
      using inv_distinct [OF inv] by simp_all
  qed
qed

lemma flight_step_inv:
  assumes inv: "flight_inv res s" and st: "flight_step nil res t s = Some s'"
  shows "flight_inv res s'"
proof (cases "pcs s t")
  case (Entering k)
  show ?thesis
  proof (cases "fm s k")
    case None
    then have "s' = s\<lparr> fcalls := (fcalls s)(fnext s := \<lparr> wg = 1, val = nil, err = None \<rparr>),
               fm := (fm s)(k \<mapsto> fnext s), fnext := Suc (fnext s),
               pcs := (pcs s)(t := Calling k (fnext s)) \<rparr>"
      using st Entering by (simp add: flight_step_def Let_def)
    then show ?thesis using step_lead [OF inv Entering None] by simp
  next
    case (Some c)
    then have "s' = s\<lparr> pcs := (pcs s)(t := Waiting c) \<rparr>"
      using st Entering by (simp add: flight_step_def)
    then show ?thesis using step_join [OF inv Entering Some] by simp
  qed
next
  case (Waiting c)
  then have z: "wg (fcalls s c) = 0"
    and "s' = s\<lparr> pcs := (pcs s)(t := Returned c False (val (fcalls s c), err (fcalls s c))) \<rparr>"
    using st by (auto simp: flight_step_def split: if_splits)
  then show ?thesis using step_wake [OF inv Waiting z] by simp
next
  case (Calling k c)
  then have "s' = s\<lparr> fcalls := (fcalls s)(c := (fcalls s c)\<lparr> val := fst (res t), err := snd (res t) \<rparr>),
               fn_log := fn_log s @ [(t, c)], pcs := (pcs s)(t := Written k c) \<rparr>"
    using st by (simp add: flight_step_def)
  then show ?thesis using step_call [OF inv Calling] by simp
next
  case (Written k c)
  then have "s' = s\<lparr> fcalls := (fcalls s)(c := (fcalls s c)\<lparr> wg := wg (fcalls s c) - 1 \<rparr>),
               pcs := (pcs s)(t := Released k c) \<rparr>"
    using st by (simp add: flight_step_def)
  then show ?thesis using step_done [OF inv Written] by simp
next
  case (Released k c)
  then have "s' = s\<lparr> fm := (fm s)(k := None),
               pcs := (pcs s)(t := Returned c True (val (fcalls s c), err (fcalls s c))) \<rparr>"
    using st by (simp add: flight_step_def)
  then show ?thesis using step_delete [OF inv Released] by simp
next
  case (Returned c led r)
  then show ?thesis using st by (simp add: flight_step_def)
qed

lemma flight_run_inv:
  "flight_inv res s \<Longrightarrow> flight_run nil res s sched = Some s' \<Longrightarrow> flight_inv res s'"
proof (induction sched arbitrary: s)
  case Nil
  then show ?case by simp
next
  case (Cons t ts)
  then show ?case by (auto split: option.splits dest: flight_step_inv)
qed

lemma flight_reachable_inv:
  "flight_run nil res (flight_init nil key_of) sched = Some s \<Longrightarrow> flight_inv res s"
  using flight_inv_init by (rule flight_run_inv)

lemma flight_enter:
  assumes "pcs s t = Entering k"
  shows "(case fm s k of
            Some c \<Rightarrow> map_option (\<lambda>s'. pcs s' t) (flight_step nil res t s) = Some (Waiting c)
          | None \<Rightarrow>
              map_option (\<lambda>s'. (pcs s' t, fm s' k)) (flight_step nil res t s) =
                Some (Calling k (fnext s), Some (fnext s)))"
  using assms by (simp add: flight_step_def Let_def split: option.splits)

text \<open>
  Claim C1. Concurrent calls of \<open>Do\<close> with one key, issued while an earlier call for
  that key has not returned, are coalesced. In every state that an interleaving of any number
  of goroutines reaches from the empty \<open>Group\<close>, where one step is one critical section
  of \<open>Do\<close>, the call of \<open>fn\<close>, \<open>wg.Done\<close>, or the return from \<open>wg.Wait\<close>:
  a goroutine that found a call record in the map (it waits, or has returned as a joiner)
  has never invoked \<open>fn\<close>; \<open>fn\<close> has been invoked at most once for each call record;
  every goroutine that has returned from a call record returned the pair that the one
  invocation of \<open>fn\<close> for that record returned; once the goroutine that created a record
  has returned, no key is mapped to that record; a record in the map belongs to a creator
  that has not returned yet; a goroutine that enters \<open>Do\<close> joins the record of its key
  when there is one, and otherwise creates a record that \<open>fn\<close> has never been invoked
  for; and the next step of a goroutine that created a record invokes \<open>fn\<close>.
\<close>

theorem single_flight_coalesces:
  "flight_run nil res (flight_init nil key_of) sched = Some s \<Longrightarrow>
     (\<forall>t c. pcs s t = Waiting c \<or> (\<exists>r. pcs s t = Returned c False r) \<longrightarrow>
        t \<notin> fst ` set (fn_log s)) \<and>
     distinct (map snd (fn_log s)) \<and>
     (\<forall>t c led r. pcs s t = Returned c led r \<longrightarrow> (\<exists>l. (l, c) \<in> set (fn_log s) \<and> r = res l)) \<and>
     (\<forall>t c r k. pcs s t = Returned c True r \<longrightarrow> fm s k \<noteq> Some c) \<and>
     (\<forall>k c. fm s k = Some c \<longrightarrow>
        (\<exists>l. pcs s l = Calling k c \<or> pcs s l = Written k c \<or> pcs s l = Released k c)) \<and>
     (\<forall>t k. pcs s t = Entering k \<longrightarrow>
        (case fm s k of
           Some c \<Rightarrow> map_option (\<lambda>s'. pcs s' t) (flight_step nil res t s) = Some (Waiting c)
         | None \<Rightarrow>
             map_option (\<lambda>s'. (pcs s' t, fm s' k)) (flight_step nil res t s) =
               Some (Calling k (fnext s), Some (fnext s)) \<and>
             fnext s \<notin> snd ` set (fn_log s))) \<and>
     (\<forall>t k c. pcs s t = Calling k c \<longrightarrow>
        map_option fn_log (flight_step nil res t s) = Some (fn_log s @ [(t, c)]))"
proof -
  assume run: "flight_run nil res (flight_init nil key_of) sched = Some s"
  have inv: "flight_inv res s" using run by (rule flight_reachable_inv)
  have 1: "\<forall>t c. pcs s t = Waiting c \<or> (\<exists>r. pcs s t = Returned c False r) \<longrightarrow>
        t \<notin> fst ` set (fn_log s)"
  proof (intro allI impI)
    fix t c assume h: "pcs s t = Waiting c \<or> (\<exists>r. pcs s t = Returned c False r)"
    have ok: "pc_ok res s t" by (rule inv_pc [OF inv])
    from h show "t \<notin> fst ` set (fn_log s)"
    proof
      assume "pcs s t = Waiting c"
      with ok show ?thesis by (simp add: pc_ok_def)
    next
      assume "\<exists>r. pcs s t = Returned c False r"
      then obtain r where "pcs s t = Returned c False r" ..
      with ok show ?thesis by (simp add: pc_ok_def)
    qed
  qed
  have 2: "distinct (map snd (fn_log s))" using inv_distinct [OF inv] by simp
  have 3: "\<forall>t c led r. pcs s t = Returned c led r \<longrightarrow> (\<exists>l. (l, c) \<in> set (fn_log s) \<and> r = res l)"
  proof (intro allI impI)
    fix t c led r assume pc: "pcs s t = Returned c led r"
    then have c: "c < fnext s" "wg (fcalls s c) = 0" "r = results (fcalls s c)"
      using inv_pc [OF inv, of t] by (simp_all add: pc_ok_def)
    then have "c \<in> snd ` set (fn_log s)" using inv_wg [OF inv] by blast
    then obtain l where l: "(l, c) \<in> set (fn_log s)" by force
    then have "results (fcalls s c) = res l" using inv_log [OF inv] by blast
    then show "\<exists>l. (l, c) \<in> set (fn_log s) \<and> r = res l" using l c(3) by auto
  qed
  have 4: "\<forall>t c r k. pcs s t = Returned c True r \<longrightarrow> fm s k \<noteq> Some c"
  proof (intro allI impI)
    fix t c r k assume "pcs s t = Returned c True r"
    then show "fm s k \<noteq> Some c" using inv_pc [OF inv, of t] by (simp add: pc_ok_def)
  qed
  have 5: "\<forall>k c. fm s k = Some c \<longrightarrow>
        (\<exists>l. pcs s l = Calling k c \<or> pcs s l = Written k c \<or> pcs s l = Released k c)"
    using inv_fm [OF inv] by blast
  have fresh: "fnext s \<notin> snd ` set (fn_log s)"
  proof
    assume "fnext s \<in> snd ` set (fn_log s)"
    then obtain l where "(l, fnext s) \<in> set (fn_log s)" by force
    then show False using inv_log [OF inv, of l "fnext s"] by simp
  qed
  have 6: "\<forall>t k. pcs s t = Entering k \<longrightarrow>
        (case fm s k of
           Some c \<Rightarrow> map_option (\<lambda>s'. pcs s' t) (flight_step nil res t s) = Some (Waiting c)
         | None \<Rightarrow>
             map_option (\<lambda>s'. (pcs s' t, fm s' k)) (flight_step nil res t s) =
               Some (Calling k (fnext s), Some (fnext s)) \<and>
             fnext s \<notin> snd ` set (fn_log s))"
  proof (intro allI impI)
    fix t k assume pc: "pcs s t = Entering k"
    show "case fm s k of
           Some c \<Rightarrow> map_option (\<lambda>s'. pcs s' t) (flight_step nil res t s) = Some (Waiting c)
         | None \<Rightarrow>
             map_option (\<lambda>s'. (pcs s' t, fm s' k)) (flight_step nil res t s) =
               Some (Calling k (fnext s), Some (fnext s)) \<and>
             fnext s \<notin> snd ` set (fn_log s)"
      using flight_enter [OF pc, of nil res] fresh by (cases "fm s k") simp_all
  qed
  have 7: "\<forall>t k c. pcs s t = Calling k c \<longrightarrow>
        map_option fn_log (flight_step nil res t s) = Some (fn_log s @ [(t, c)])"
    by (simp add: flight_step_def)
  show ?thesis using 1 2 3 4 5 6 7 by blast
qed

text \<open>
  The claim C1 at three goroutines on the key \<open>K\<close>: goroutine 1 enters while goroutine 0
  is in flight, blocks in \<open>wg.Wait\<close> until goroutine 0 has called \<open>wg.Done\<close>, and returns
  the pair of goroutine 0; goroutine 2 enters after goroutine 0 has removed the record
  and invokes \<open>fn\<close> again.
\<close>

theorem single_flight_coalesces_witness:
  "flight_run (0::nat) (\<lambda>t. (t + 100, None)) (flight_init 0 (\<lambda>t. ''K''))
      [0, 1, 0, 0, 1, 0, 2, 2, 2, 2] \<noteq> None \<and>
   pcs (the (flight_run (0::nat) (\<lambda>t. (t + 100, None)) (flight_init 0 (\<lambda>t. ''K''))
      [0, 1, 0, 0, 1, 0, 2, 2, 2, 2])) 0 = Returned 0 True (100, None) \<and>
   pcs (the (flight_run (0::nat) (\<lambda>t. (t + 100, None)) (flight_init 0 (\<lambda>t. ''K''))
      [0, 1, 0, 0, 1, 0, 2, 2, 2, 2])) 1 = Returned 0 False (100, None) \<and>
   pcs (the (flight_run (0::nat) (\<lambda>t. (t + 100, None)) (flight_init 0 (\<lambda>t. ''K''))
      [0, 1, 0, 0, 1, 0, 2, 2, 2, 2])) 2 = Returned 1 True (102, None) \<and>
   fn_log (the (flight_run (0::nat) (\<lambda>t. (t + 100, None)) (flight_init 0 (\<lambda>t. ''K''))
      [0, 1, 0, 0, 1, 0, 2, 2, 2, 2])) = [(0, 0), (2, 1)] \<and>
   fm (the (flight_run (0::nat) (\<lambda>t. (t + 100, None)) (flight_init 0 (\<lambda>t. ''K''))
      [0, 1, 0, 0, 1, 0, 2, 2, 2, 2])) ''K'' = None \<and>
   pcs (the (flight_run (0::nat) (\<lambda>t. (t + 100, None)) (flight_init 0 (\<lambda>t. ''K''))
      [0, 1])) 1 = Waiting 0 \<and>
   flight_step (0::nat) (\<lambda>t. (t + 100, None)) 1
     (the (flight_run (0::nat) (\<lambda>t. (t + 100, None)) (flight_init 0 (\<lambda>t. ''K'')) [0, 1])) = None"
proof -
  define s where "s = the (flight_run (0::nat) (\<lambda>t. (t + 100, None)) (flight_init 0 (\<lambda>t. ''K''))
      [0, 1, 0, 0, 1, 0, 2, 2, 2, 2])"
  define w where "w = the (flight_run (0::nat) (\<lambda>t. (t + 100, None)) (flight_init 0 (\<lambda>t. ''K''))
      [0, 1])"
  have run: "flight_run (0::nat) (\<lambda>t. (t + 100, None)) (flight_init 0 (\<lambda>t. ''K''))
      [0, 1, 0, 0, 1, 0, 2, 2, 2, 2] = Some s"
    unfolding s_def by (simp add: flight_step_def flight_init_def Let_def)
  have p: "pcs s 0 = Returned 0 True (100, None)" "pcs s 2 = Returned 1 True (102, None)"
    "fm s ''K'' = None"
    unfolding s_def by (simp_all add: flight_step_def flight_init_def Let_def)
  have lg: "fn_log s = [(0, 0), (2, 1)]"
    unfolding s_def by (simp add: flight_step_def flight_init_def Let_def)
  have "\<exists>r. pcs s 1 = Returned 0 False r"
    unfolding s_def by (simp add: flight_step_def flight_init_def Let_def)
  then obtain r where r: "pcs s 1 = Returned 0 False r" ..
  note t = single_flight_coalesces [OF run]
  have "\<exists>l. (l, 0) \<in> set (fn_log s) \<and> r = (l + 100, None)"
    using t r by blast
  then have "r = (100, None)" by (auto simp: lg)
  then have p1: "pcs s 1 = Returned 0 False (100, None)" using r by simp
  have wr: "pcs w 1 = Waiting 0"
    "flight_step (0::nat) (\<lambda>t. (t + 100, None)) 1 w = None"
    unfolding w_def by (simp_all add: flight_step_def flight_init_def Let_def)
  show ?thesis
    unfolding s_def [symmetric] w_def [symmetric] using run p p1 lg wr by simp
qed

end
